theory Spec2Isabelle
  imports Main "HOL-Library.Sublist" "HOL-Library.Multiset"
begin

section \<open>ChallengeGraph: a typed multi-relational graph and its clique queries\<close>

text \<open>
  A shallow embedding of \<^verbatim>\<open>graph_tools_playground/graph.py\<close>. The class
  \<^verbatim>\<open>ChallengeGraph\<close> extends networkx's \<^verbatim>\<open>MultiDiGraph\<close>; the parts of that
  container the methods touch (the node dictionary, the multi-edges, \<^verbatim>\<open>add_nodes_from\<close>,
  \<^verbatim>\<open>add_edge\<close>, the node view's item access) are written out as functions on an explicit
  store. Every exception the Python can raise is a value of the type \<open>error\<close>, and a
  mutating method returns its outcome together with the store it leaves behind, so that a
  partial mutation before a raise is visible.
\<close>

subsection \<open>Errors and outcomes\<close>

text \<open>
  Modelled from the spec: the module \<^verbatim>\<open>graph_tools_playground.errors\<close>, which declares
  \<^verbatim>\<open>InvalidRelationshipLine\<close>, is not among the sources. The spec names it as the error
  of a relationship line that does not split into five tokens, and \<^verbatim>\<open>parse_relationship_line\<close>
  raises it with a message that ends with the line; here it is a constructor that carries this
  message. The other constructors are the exceptions of Python and of networkx that the
  methods can raise: \<^verbatim>\<open>FileNotFoundError\<close> carries its message, \<^verbatim>\<open>KeyError\<close> the missing
  key.
\<close>

datatype error =
    FileNotFoundError string
  | StopIteration
  | IndexError
  | KeyError string
  | InvalidRelationshipLine string
  | NetworkXError

datatype outcome = Returned | Raised error

subsection \<open>Python strings: \<^verbatim>\<open>strip\<close>, \<^verbatim>\<open>split\<close>, \<^verbatim>\<open>join\<close>\<close>

text \<open>
  A character of the model is a code point below 256. \<^verbatim>\<open>str.split()\<close> and
  \<^verbatim>\<open>str.strip()\<close> without arguments treat as whitespace the code points 9 to 13, 28 to 31,
  32, 133 and 160 of that range.
\<close>

definition is_space :: "char \<Rightarrow> bool" where
  "is_space c = (c \<in> set [CHR 0x09, CHR 0x0A, CHR 0x0B, CHR 0x0C, CHR 0x0D,
                           CHR 0x1C, CHR 0x1D, CHR 0x1E, CHR 0x1F, CHR 0x20,
                           CHR 0x85, CHR 0xA0])"

definition strip :: "string \<Rightarrow> string" where
  "strip s = rev (dropWhile is_space (rev (dropWhile is_space s)))"

text \<open>
  \<open>split_from cur s\<close> scans \<open>s\<close> with the token \<open>cur\<close> under construction; a token ends
  at a whitespace character or at the end of the string, and empty tokens are not produced.
\<close>

fun split_from :: "string \<Rightarrow> string \<Rightarrow> string list" where
  "split_from cur [] = (if cur = [] then [] else [cur])"
| "split_from cur (c # cs) =
     (if is_space c then (if cur = [] then split_from [] cs else cur # split_from [] cs)
      else split_from (cur @ [c]) cs)"

definition split_ws :: "string \<Rightarrow> string list" where
  "split_ws s = split_from [] s"

fun join_sp :: "string list \<Rightarrow> string" where
  "join_sp [] = []"
| "join_sp [x] = x"
| "join_sp (x # y # ys) = x @ '' '' @ join_sp (y # ys)"

subsection \<open>Python dictionaries\<close>

text \<open>
  A \<^verbatim>\<open>dict\<close> keeps its keys in insertion order: it is an association list whose keys are
  distinct. Assigning to a key that is present replaces the value in place, assigning to a
  new key appends the entry. \<^verbatim>\<open>d.update(other)\<close> assigns the entries of \<open>other\<close> in order.
\<close>

fun dict_set :: "('k \<times> 'v) list \<Rightarrow> 'k \<Rightarrow> 'v \<Rightarrow> ('k \<times> 'v) list" where
  "dict_set [] k v = [(k, v)]"
| "dict_set ((k', v') # d) k v =
     (if k' = k then (k, v) # d else (k', v') # dict_set d k v)"

definition dict_get :: "('k \<times> 'v) list \<Rightarrow> 'k \<Rightarrow> 'v option" where
  "dict_get d k = map_of d k"

fun dict_update :: "('k \<times> 'v) list \<Rightarrow> ('k \<times> 'v) list \<Rightarrow> ('k \<times> 'v) list" where
  "dict_update d [] = d"
| "dict_update d ((k, v) # other) = dict_update (dict_set d k v) other"

subsection \<open>The Graph Store\<close>

text \<open>
  The state of a \<^verbatim>\<open>MultiDiGraph\<close>: the node dictionary (ID to attribute dictionary) and
  the directed multi-edges (source, target, value of the \<^verbatim>\<open>relation\<close> attribute) in the order
  they were added. Parallel edges are kept: \<^verbatim>\<open>add_edge\<close> of a multigraph gives each a fresh
  key.
\<close>

type_synonym attrs = "(string \<times> string) list"

record store =
  nodes :: "(string \<times> attrs) list"
  edges :: "(string \<times> string \<times> string) list"

definition empty_store :: store where
  "empty_store = \<lparr>nodes = [], edges = []\<rparr>"

text \<open>
  \<^verbatim>\<open>add_nodes_from\<close> with (node, attribute dictionary) pairs: a node that is new gets an empty
  attribute dictionary first; then the node's dictionary is updated with the given one.
\<close>

definition add_node :: "store \<Rightarrow> string \<Rightarrow> attrs \<Rightarrow> store" where
  "add_node s n ndict =
     (case dict_get (nodes s) n of
        None \<Rightarrow> s\<lparr>nodes := dict_set (nodes s) n (dict_update [] ndict)\<rparr>
      | Some old \<Rightarrow> s\<lparr>nodes := dict_set (nodes s) n (dict_update old ndict)\<rparr>)"

fun add_nodes_from :: "store \<Rightarrow> (string \<times> attrs) list \<Rightarrow> store" where
  "add_nodes_from s [] = s"
| "add_nodes_from s ((n, ndict) # rest) = add_nodes_from (add_node s n ndict) rest"

text \<open>
  \<^verbatim>\<open>add_edge(u, v, relation=rel)\<close>: an endpoint that is not a node is added with an empty
  attribute dictionary, then the edge is appended.
\<close>

definition add_edge :: "store \<Rightarrow> string \<Rightarrow> string \<Rightarrow> string \<Rightarrow> store" where
  "add_edge s u v rel =
     (let s1 = (if dict_get (nodes s) u = None then s\<lparr>nodes := dict_set (nodes s) u []\<rparr> else s);
          s2 = (if dict_get (nodes s1) v = None then s1\<lparr>nodes := dict_set (nodes s1) v []\<rparr> else s1)
      in s2\<lparr>edges := edges s2 @ [(u, v, rel)]\<rparr>)"

text \<open>
  \<^verbatim>\<open>self.nodes[n].setdefault("Type", t)\<close>. The node view of networkx answers
  \<^verbatim>\<open>self.nodes[n]\<close> with \<^verbatim>\<open>self._nodes[n]\<close>, a lookup in the node dictionary: it does
  not create the node, and a node that is absent raises \<^verbatim>\<open>KeyError\<close>. \<^verbatim>\<open>setdefault\<close>
  writes the key only when the dictionary does not have it.
\<close>

definition setdefault_type :: "store \<Rightarrow> string \<Rightarrow> string \<Rightarrow> error + store" where
  "setdefault_type s n t =
     (case dict_get (nodes s) n of
        None \<Rightarrow> Inl (KeyError n)
      | Some d \<Rightarrow>
          (case dict_get d ''Type'' of
             None \<Rightarrow> Inr (s\<lparr>nodes := dict_set (nodes s) n (dict_set d ''Type'' t)\<rparr>)
           | Some _ \<Rightarrow> Inr s))"

subsection \<open>Parsing\<close>

text \<open>
  \<^verbatim>\<open>parse_property_line\<close> indexes the token list at 0 and at 1 without a check: each
  index out of range raises \<^verbatim>\<open>IndexError\<close>. The value is the remaining tokens joined by
  single spaces.
\<close>

definition parse_property_line :: "string \<Rightarrow> error + (string \<times> string \<times> string)" where
  "parse_property_line line =
     (case split_ws line of
        [] \<Rightarrow> Inl IndexError
      | [i] \<Rightarrow> Inl IndexError
      | i # p # rest \<Rightarrow> Inr (i, p, join_sp rest))"

definition parse_relationship_line ::
  "string \<Rightarrow> error + (string \<times> string \<times> string \<times> string \<times> string)" where
  "parse_relationship_line line =
     (let relationship = split_ws line in
      if length relationship \<noteq> 5
      then Inl (InvalidRelationshipLine (''Error processing relationship: '' @ line))
      else Inr (relationship ! 0, relationship ! 1, relationship ! 2,
                relationship ! 3, relationship ! 4))"

subsection \<open>Ingestion\<close>

text \<open>
  Both ingestion methods take a path. What the file system holds there is a parameter of the
  model: \<open>None\<close> when \<^verbatim>\<open>Path.exists()\<close> is false, otherwise the lines that iterating
  over the open file yields. \<^verbatim>\<open>next(fp)\<close> on a file without lines raises
  \<^verbatim>\<open>StopIteration\<close>.
\<close>

type_synonym text_file = "string list option"

text \<open>
  \<^verbatim>\<open>parsed_entities[id][property] = value\<close> on a \<^verbatim>\<open>defaultdict(dict)\<close>: a missing
  \<open>id\<close> starts from the empty dictionary.
\<close>

definition set_property :: "(string \<times> attrs) list \<Rightarrow> string \<Rightarrow> string \<Rightarrow> string
    \<Rightarrow> (string \<times> attrs) list" where
  "set_property pe i p v =
     (case dict_get pe i of
        None \<Rightarrow> dict_set pe i (dict_set [] p v)
      | Some d \<Rightarrow> dict_set pe i (dict_set d p v))"

fun parse_properties :: "(string \<times> attrs) list \<Rightarrow> string list \<Rightarrow> error + (string \<times> attrs) list" where
  "parse_properties pe [] = Inr pe"
| "parse_properties pe (l # ls) =
     (let line = strip l in
      if line \<noteq> [] then
        (case parse_property_line line of
           Inl e \<Rightarrow> Inl e
         | Inr (i, p, v) \<Rightarrow> parse_properties (set_property pe i p v) ls)
      else parse_properties pe ls)"

definition add_properties_from_file :: "string \<Rightarrow> text_file \<Rightarrow> store \<Rightarrow> outcome \<times> store" where
  "add_properties_from_file properties fp s =
     (case fp of
        None \<Rightarrow> (Raised (FileNotFoundError (''Properties file '' @ properties @ '' not found.'')), s)
      | Some [] \<Rightarrow> (Raised StopIteration, s)
      | Some (header # ls) \<Rightarrow>
          (case parse_properties [] ls of
             Inl e \<Rightarrow> (Raised e, s)
           | Inr pe \<Rightarrow> (Returned, add_nodes_from s pe)))"

text \<open>
  One pass of the loop body of \<^verbatim>\<open>add_relationships_from_file\<close> on a line. The two
  \<^verbatim>\<open>setdefault\<close> calls and \<^verbatim>\<open>add_edge\<close> run in this order, so a raise at the second
  endpoint leaves the first endpoint's \<^verbatim>\<open>Type\<close> written.
\<close>

definition relationship_step :: "store \<Rightarrow> string \<Rightarrow> outcome \<times> store" where
  "relationship_step s l =
     (let line = strip l in
      if line \<noteq> [] then
        (case parse_relationship_line line of
           Inl e \<Rightarrow> (Raised e, s)
         | Inr (rel, id1, type1, id2, type2) \<Rightarrow>
             (case setdefault_type s id1 type1 of
                Inl e \<Rightarrow> (Raised e, s)
              | Inr s1 \<Rightarrow>
                  (case setdefault_type s1 id2 type2 of
                     Inl e \<Rightarrow> (Raised e, s1)
                   | Inr s2 \<Rightarrow> (Returned, add_edge s2 id1 id2 rel))))
      else (Returned, s))"

fun relationship_loop :: "store \<Rightarrow> string list \<Rightarrow> outcome \<times> store" where
  "relationship_loop s [] = (Returned, s)"
| "relationship_loop s (l # ls) =
     (case relationship_step s l of
        (Raised e, s') \<Rightarrow> (Raised e, s')
      | (Returned, s') \<Rightarrow> relationship_loop s' ls)"

definition add_relationships_from_file :: "string \<Rightarrow> text_file \<Rightarrow> store \<Rightarrow> outcome \<times> store" where
  "add_relationships_from_file relationships fp s =
     (case fp of
        None \<Rightarrow> (Raised (FileNotFoundError (''Relationship file '' @ relationships @ '' not found.'')), s)
      | Some [] \<Rightarrow> (Raised StopIteration, s)
      | Some (header # ls) \<Rightarrow> relationship_loop s ls)"

subsection \<open>Clique queries\<close>

text \<open>
  Both queries collect \<^verbatim>\<open>frozenset([n1, n2])\<close> for the edges that pass their filter in a
  Python \<^verbatim>\<open>set\<close>. The frozenset is represented by the pair \<open>(n1, n2)\<close>, two pairs standing
  for the same frozenset when they agree up to the order of their components; its \<^verbatim>\<open>len\<close>
  is 1 when \<open>n1 = n2\<close> and 2 otherwise. The set is a list without two entries for the same
  frozenset. Python fixes neither the iteration order of a set nor the order in which a
  frozenset unpacks; the model takes the order of first insertion, and the properties
  proved below compare sets of nodes, not positions.
\<close>

definition same_frozenset :: "string \<times> string \<Rightarrow> string \<times> string \<Rightarrow> bool" where
  "same_frozenset e f = (e = f \<or> e = (snd f, fst f))"

definition set_add :: "(string \<times> string) list \<Rightarrow> string \<times> string \<Rightarrow> (string \<times> string) list" where
  "set_add es e = (if list_ex (same_frozenset e) es then es else es @ [e])"

text \<open>
  The loop of \<^verbatim>\<open>find_friend_cliques\<close> over \<^verbatim>\<open>self.edges(data=True)\<close>, with the set built
  so far.
\<close>

fun friend_edges :: "(string \<times> string \<times> string) list \<Rightarrow> (string \<times> string) list
    \<Rightarrow> (string \<times> string) list" where
  "friend_edges [] acc = acc"
| "friend_edges ((n1, n2, rel) # es) acc =
     (if rel = ''FRIENDS_WITH'' then friend_edges es (set_add acc (n1, n2))
      else friend_edges es acc)"

text \<open>
  The loop of \<^verbatim>\<open>find_person_cliques\<close> over \<^verbatim>\<open>self.edges()\<close>. The test is the chained
  comparison \<^verbatim>\<open>self.nodes[n1].get("Type") == self.nodes[n2].get("Type") == "Person"\<close>: both
  node lookups are evaluated, left to right, and \<^verbatim>\<open>get\<close> gives \<^verbatim>\<open>None\<close> for a node without
  the attribute.
\<close>

definition get_type :: "store \<Rightarrow> string \<Rightarrow> error + string option" where
  "get_type s n =
     (case dict_get (nodes s) n of
        None \<Rightarrow> Inl (KeyError n)
      | Some d \<Rightarrow> Inr (dict_get d ''Type''))"

fun person_edges :: "store \<Rightarrow> (string \<times> string \<times> string) list \<Rightarrow> (string \<times> string) list
    \<Rightarrow> error + (string \<times> string) list" where
  "person_edges s [] acc = Inr acc"
| "person_edges s ((n1, n2, rel) # es) acc =
     (case get_type s n1 of
        Inl e \<Rightarrow> Inl e
      | Inr t1 \<Rightarrow>
          (case get_type s n2 of
             Inl e \<Rightarrow> Inl e
           | Inr t2 \<Rightarrow>
               if t1 = t2 \<and> t2 = Some ''Person'' then person_edges s es (set_add acc (n1, n2))
               else person_edges s es acc))"

text \<open>
  The undirected graph \<^verbatim>\<open>nx.Graph()\<close> is its adjacency dictionary: node to the list of its
  neighbours, both in insertion order. \<^verbatim>\<open>Graph.add_edges_from\<close> of networkx starts, for each
  element \<open>e\<close> of its argument, with \<^verbatim>\<open>ne = len(e)\<close>: for \<^verbatim>\<open>ne == 2\<close> it unpacks
  \<^verbatim>\<open>u, v = e\<close>, adds the endpoints that are missing and records each as a neighbour of the
  other; for a length other than 2 or 3 it raises \<^verbatim>\<open>NetworkXError\<close> (the edge tuple must
  be a 2-tuple or 3-tuple). A frozenset built from an edge whose source is its target has one
  element, and no frozenset here has three.
\<close>

type_synonym ugraph = "(string \<times> string list) list"

definition neighbors :: "ugraph \<Rightarrow> string \<Rightarrow> string list" where
  "neighbors g u = (case dict_get g u of None \<Rightarrow> [] | Some ns \<Rightarrow> ns)"

definition graph_add_node :: "ugraph \<Rightarrow> string \<Rightarrow> ugraph" where
  "graph_add_node g n = (if dict_get g n = None then dict_set g n [] else g)"

definition adj_add :: "ugraph \<Rightarrow> string \<Rightarrow> string \<Rightarrow> ugraph" where
  "adj_add g u v =
     dict_set g u (if v \<in> set (neighbors g u) then neighbors g u else neighbors g u @ [v])"

definition graph_add_edge :: "ugraph \<Rightarrow> string \<Rightarrow> string \<Rightarrow> ugraph" where
  "graph_add_edge g u v = adj_add (adj_add (graph_add_node (graph_add_node g u) v) u v) v u"

fun add_edges_from :: "ugraph \<Rightarrow> (string \<times> string) list \<Rightarrow> error + ugraph" where
  "add_edges_from g [] = Inr g"
| "add_edges_from g ((n1, n2) # es) =
     (if n1 = n2 then Inl NetworkXError else add_edges_from (graph_add_edge g n1 n2) es)"

text \<open>
  \<^verbatim>\<open>enumerate_all_cliques\<close> of networkx. Its first loop numbers the nodes in iteration order
  (\<open>index\<close>) and gives each node \<open>u\<close> the set \<open>nbrs[u]\<close> of its neighbours that are not
  numbered yet when \<open>u\<close> is: here \<open>index\<close> is the list of the nodes numbered so far. Sorting a
  set of nodes by \<open>index\<close> lists its members in iteration order. The queue starts with one
  entry \<open>([u], sorted nbrs[u])\<close> per node; the main loop pops the first entry
  \<open>(base, cnbrs)\<close>, yields \<open>base\<close>, and appends for every \<open>u\<close> in \<open>cnbrs\<close> the entry
  of \<open>base\<close> extended by \<open>u\<close> with the later members of \<open>cnbrs\<close> that are in \<open>nbrs[u]\<close>.
  The model returns the list of everything the generator yields.
\<close>

fun index_nbrs :: "ugraph \<Rightarrow> string list \<Rightarrow> string list \<Rightarrow> (string \<times> string list) list" where
  "index_nbrs g index [] = []"
| "index_nbrs g index (u # us) =
     (u, filter (\<lambda>v. v \<notin> set (index @ [u])) (neighbors g u)) # index_nbrs g (index @ [u]) us"

definition nbrs_of :: "(string \<times> string list) list \<Rightarrow> string \<Rightarrow> string list" where
  "nbrs_of nbrs u = (case dict_get nbrs u of None \<Rightarrow> [] | Some ns \<Rightarrow> ns)"

definition sorted_by_index :: "string list \<Rightarrow> string list \<Rightarrow> string list" where
  "sorted_by_index order xs = filter (\<lambda>v. v \<in> set xs) order"

fun children :: "(string \<times> string list) list \<Rightarrow> string list \<Rightarrow> string list
    \<Rightarrow> (string list \<times> string list) list" where
  "children nbrs base [] = []"
| "children nbrs base (u # rest) =
     (base @ [u], filter (\<lambda>v. v \<in> set (nbrs_of nbrs u)) rest) # children nbrs base rest"

text \<open>
  The main loop ends: an entry with \<open>n\<close> candidates weighs \<open>2 ^ n\<close>, and the entries that
  replace it weigh less together.
\<close>

definition weight :: "(string list \<times> string list) list \<Rightarrow> nat" where
  "weight queue = sum_list (map (\<lambda>(base, cnbrs). 2 ^ length cnbrs) queue)"

function bfs :: "(string \<times> string list) list \<Rightarrow> (string list \<times> string list) list
    \<Rightarrow> string list list" where
  "bfs nbrs [] = []"
| "bfs nbrs ((base, cnbrs) # queue) = base # bfs nbrs (queue @ children nbrs base cnbrs)"
  by pat_completeness auto
termination
proof (relation "measure (\<lambda>(nbrs, queue). weight queue)")
  show "wf (measure (\<lambda>(nbrs, queue). weight queue))" by simp
next
  fix nbrs :: "(string \<times> string list) list" and base cnbrs :: "string list"
    and queue :: "(string list \<times> string list) list"
  have less: "weight (children nbrs base cnbrs) < 2 ^ length cnbrs"
  proof (induction cnbrs)
    case Nil
    then show ?case by (simp add: weight_def)
  next
    case (Cons u rest)
    have le: "(2::nat) ^ length (filter (\<lambda>v. v \<in> set (nbrs_of nbrs u)) rest) \<le> 2 ^ length rest"
      by (rule power_increasing) simp_all
    have w: "weight (children nbrs base (u # rest)) =
        2 ^ length (filter (\<lambda>v. v \<in> set (nbrs_of nbrs u)) rest) + weight (children nbrs base rest)"
      by (simp add: weight_def)
    have p: "(2::nat) ^ length (u # rest) = 2 * 2 ^ length rest" by simp
    from Cons.IH le w p show ?case by linarith
  qed
  have "weight (queue @ children nbrs base cnbrs) = weight queue + weight (children nbrs base cnbrs)"
    by (simp add: weight_def)
  moreover have "weight ((base, cnbrs) # queue) = 2 ^ length cnbrs + weight queue"
    by (simp add: weight_def)
  ultimately show "((nbrs, queue @ children nbrs base cnbrs), (nbrs, (base, cnbrs) # queue))
      \<in> measure (\<lambda>(nbrs, queue). weight queue)"
    using less by simp
qed

definition enumerate_all_cliques :: "ugraph \<Rightarrow> string list list" where
  "enumerate_all_cliques g =
     (let order = map fst g;
          nbrs = index_nbrs g [] order;
          queue = map (\<lambda>(u, ns). ([u], sorted_by_index order ns)) nbrs
      in bfs nbrs queue)"

definition friend_graph :: "store \<Rightarrow> error + ugraph" where
  "friend_graph s = add_edges_from [] (friend_edges (edges s) [])"

definition person_graph :: "store \<Rightarrow> error + ugraph" where
  "person_graph s =
     (case person_edges s (edges s) [] of
        Inl e \<Rightarrow> Inl e
      | Inr es \<Rightarrow> add_edges_from [] es)"

definition find_friend_cliques :: "store \<Rightarrow> error + string list list" where
  "find_friend_cliques s =
     (case friend_graph s of Inl e \<Rightarrow> Inl e | Inr G \<Rightarrow> Inr (enumerate_all_cliques G))"

definition find_person_cliques :: "store \<Rightarrow> error + string list list" where
  "find_person_cliques s =
     (case person_graph s of Inl e \<Rightarrow> Inl e | Inr G \<Rightarrow> Inr (enumerate_all_cliques G))"

subsection \<open>Notions the properties are stated with\<close>

text \<open>What a node's \<^verbatim>\<open>Type\<close> attribute holds, and whether an ID is a node.\<close>

definition stored_type :: "store \<Rightarrow> string \<Rightarrow> string option" where
  "stored_type s n = (case dict_get (nodes s) n of None \<Rightarrow> None | Some d \<Rightarrow> dict_get d ''Type'')"

definition has_node :: "store \<Rightarrow> string \<Rightarrow> bool" where
  "has_node s n = (dict_get (nodes s) n \<noteq> None)"

text \<open>
  A line of a relationship file is malformed when it is not blank and does not split into
  five tokens. \<open>endpoints_known s ls\<close>: both IDs of every five-token line of \<open>ls\<close> are nodes
  of \<open>s\<close>. \<open>declared_edges ls\<close>: the edges that the five-token lines of \<open>ls\<close> declare, in
  order.
\<close>

definition malformed :: "string \<Rightarrow> bool" where
  "malformed l = (strip l \<noteq> [] \<and> length (split_ws (strip l)) \<noteq> 5)"

definition endpoints_known :: "store \<Rightarrow> string list \<Rightarrow> bool" where
  "endpoints_known s ls =
     list_all (\<lambda>l. case parse_relationship_line (strip l) of
                     Inl e \<Rightarrow> True
                   | Inr (rel, id1, type1, id2, type2) \<Rightarrow> has_node s id1 \<and> has_node s id2) ls"

fun declared_edges :: "string list \<Rightarrow> (string \<times> string \<times> string) list" where
  "declared_edges [] = []"
| "declared_edges (l # ls) =
     (case parse_relationship_line (strip l) of
        Inl e \<Rightarrow> declared_edges ls
      | Inr (rel, id1, type1, id2, type2) \<Rightarrow> (id1, id2, rel) # declared_edges ls)"

text \<open>
  \<open>data_lines fp\<close>: the lines of the file after its header. \<open>processed_lines s ls\<close>: the
  lines of \<open>ls\<close> before the first one that is malformed or names an ID that is not a node
  of \<open>s\<close>, all of \<open>ls\<close> when there is none.
\<close>

definition data_lines :: "text_file \<Rightarrow> string list" where
  "data_lines fp = (case fp of None \<Rightarrow> [] | Some [] \<Rightarrow> [] | Some (header # ls) \<Rightarrow> ls)"

definition processed_lines :: "store \<Rightarrow> string list \<Rightarrow> string list" where
  "processed_lines s ls = takeWhile (\<lambda>l. \<not> malformed l \<and> endpoints_known s [l]) ls"

text \<open>The number of edges from \<open>a\<close> to \<open>b\<close>.\<close>

definition edge_count :: "store \<Rightarrow> string \<Rightarrow> string \<Rightarrow> nat" where
  "edge_count s a b = length (filter (\<lambda>(u, v, rel). u = a \<and> v = b) (edges s))"

text \<open>
  \<open>covers d other\<close>: the dictionary \<open>d\<close> has every entry of \<open>other\<close>.
  \<open>dict_ok pe\<close>: the keys of \<open>pe\<close> and of each dictionary in it are distinct.
\<close>

definition covers :: "('k \<times> 'v) list \<Rightarrow> ('k \<times> 'v) list \<Rightarrow> bool" where
  "covers d other = (\<forall>(k, v)\<in>set other. map_of d k = Some v)"

definition node_covers :: "store \<Rightarrow> string \<times> attrs \<Rightarrow> bool" where
  "node_covers s x = (case map_of (nodes s) (fst x) of None \<Rightarrow> False | Some a \<Rightarrow> covers a (snd x))"

definition dict_ok :: "(string \<times> attrs) list \<Rightarrow> bool" where
  "dict_ok pe = (distinct (map fst pe) \<and> (\<forall>x\<in>set pe. distinct (map fst (snd x))))"

text \<open>
  The pairs of nodes whose edge passes the friend filter, and those whose edge passes the
  person filter, in the order of the store's edges. \<open>unordered ps\<close> is the set of the
  unordered pairs \<open>{a, b}\<close> for \<open>(a, b)\<close> in \<open>ps\<close>: since \<open>{a, b} = {b, a}\<close>, the
  direction of the edge is forgotten. \<open>no_loop ps\<close>: no pair joins a node to itself.
\<close>

definition friend_pairs :: "store \<Rightarrow> (string \<times> string) list" where
  "friend_pairs s =
     map (\<lambda>(a, b, rel). (a, b)) (filter (\<lambda>(a, b, rel). rel = ''FRIENDS_WITH'') (edges s))"

definition person_pairs :: "store \<Rightarrow> (string \<times> string) list" where
  "person_pairs s =
     map (\<lambda>(a, b, rel). (a, b))
       (filter (\<lambda>(a, b, rel). stored_type s a = Some ''Person'' \<and> stored_type s b = Some ''Person'')
          (edges s))"

definition unordered :: "(string \<times> string) list \<Rightarrow> string set set" where
  "unordered ps = (\<lambda>(a, b). {a, b}) ` set ps"

definition no_loop :: "(string \<times> string) list \<Rightarrow> bool" where
  "no_loop ps = list_all (\<lambda>(a, b). a \<noteq> b) ps"

text \<open>
  The invariant of the container: both endpoints of every edge are nodes. The empty store
  has it and both ingestion methods keep it (\<open>store_wf_empty\<close>,
  \<open>store_wf_add_properties\<close>, \<open>store_wf_add_relationships\<close> below).
\<close>

definition store_wf :: "store \<Rightarrow> bool" where
  "store_wf s = list_all (\<lambda>(a, b, rel). has_node s a \<and> has_node s b) (edges s)"

text \<open>
  The edges of an undirected graph as a set of unordered pairs; \<open>graph_ok\<close>: no node and no
  neighbour is listed twice; \<open>ugraph_wf\<close>: moreover adjacency is symmetric and every
  neighbour is a node.
\<close>

definition graph_edge_set :: "ugraph \<Rightarrow> string set set" where
  "graph_edge_set g = (\<Union>(u, ns)\<in>set g. (\<lambda>v. {u, v}) ` set ns)"

definition graph_ok :: "ugraph \<Rightarrow> bool" where
  "graph_ok g = (distinct (map fst g) \<and> (\<forall>u. distinct (neighbors g u)))"

definition ugraph_wf :: "ugraph \<Rightarrow> bool" where
  "ugraph_wf g = (distinct (map fst g) \<and>
     (\<forall>u v. v \<in> set (neighbors g u) \<longrightarrow> u \<in> set (neighbors g v) \<and> v \<in> fst ` set g))"

text \<open>
  The cliques of the graph whose edges are the unordered pairs of \<open>ps\<close> and whose nodes are
  the endpoints of these edges: the non-empty sets of nodes in which any two different
  members are joined by an edge.
\<close>

definition cliques_of :: "(string \<times> string) list \<Rightarrow> string set set" where
  "cliques_of ps =
     {S. S \<noteq> {} \<and> S \<subseteq> \<Union>(unordered ps) \<and> (\<forall>a\<in>S. \<forall>b\<in>S. a \<noteq> b \<longrightarrow> {a, b} \<in> unordered ps)}"

text \<open>
  Notions of the proofs. \<open>und R\<close> is the symmetric closure of \<open>R\<close>. \<open>after xs x\<close> is the
  part of \<open>xs\<close> behind \<open>x\<close>. \<open>oksubs nbrs c\<close> lists the subsequences of the candidates
  \<open>c\<close> in which every member is in \<open>nbrs\<close> of all the members before it (\<open>chain\<close>);
  \<open>outputs nbrs queue\<close> lists, for every entry of the queue, its base extended by each of
  these subsequences of its candidates: what the main loop yields from that queue, up to
  order.
\<close>

definition und :: "(string \<times> string) set \<Rightarrow> (string \<times> string) set" where
  "und R = {(a, b). (a, b) \<in> R \<or> (b, a) \<in> R}"

fun after :: "string list \<Rightarrow> string \<Rightarrow> string list" where
  "after [] x = []"
| "after (w # ws) x = (if w = x then ws else after ws x)"

fun oksubs :: "(string \<times> string list) list \<Rightarrow> string list \<Rightarrow> string list list" where
  "oksubs nbrs [] = [[]]"
| "oksubs nbrs (u # rest) =
     map ((#) u) (oksubs nbrs (filter (\<lambda>v. v \<in> set (nbrs_of nbrs u)) rest)) @ oksubs nbrs rest"

fun chain :: "(string \<times> string list) list \<Rightarrow> string list \<Rightarrow> bool" where
  "chain nbrs [] = True"
| "chain nbrs (u # t) = (set t \<subseteq> set (nbrs_of nbrs u) \<and> chain nbrs t)"

definition outputs :: "(string \<times> string list) list \<Rightarrow> (string list \<times> string list) list
    \<Rightarrow> string list list" where
  "outputs nbrs queue = concat (map (\<lambda>(b, c). map ((@) b) (oksubs nbrs c)) queue)"

text \<open>
  Three stores. \<open>triangle_store\<close> is the one that \<^verbatim>\<open>test_find_friend_cliques\<close> builds
  from its two files; \<open>mixed_store\<close> has parallel and opposite edges, other labels and a
  node that is not a person; \<open>loop_store\<close> has a friendship from a person to itself.
\<close>

definition triangle_store :: store where
  "triangle_store =
     \<lparr>nodes = [(''A'', [(''Name'', ''Frank''), (''Type'', ''Person'')]),
               (''B'', [(''Name'', ''Ally''), (''Type'', ''Person'')]),
               (''C'', [(''Name'', ''Oscar''), (''Type'', ''Person'')])],
      edges = [(''A'', ''C'', ''FRIENDS_WITH''), (''A'', ''B'', ''FRIENDS_WITH''),
               (''B'', ''C'', ''FRIENDS_WITH'')]\<rparr>"

definition mixed_store :: store where
  "mixed_store =
     \<lparr>nodes = [(''A'', [(''Type'', ''Person'')]), (''B'', [(''Type'', ''Person'')]),
               (''C'', [(''Type'', ''Person'')]), (''X'', [(''Name'', ''NLP''), (''Type'', ''Field'')])],
      edges = [(''A'', ''C'', ''FRIENDS_WITH''), (''C'', ''A'', ''FRIENDS_WITH''),
               (''A'', ''C'', ''FRIENDS_WITH''), (''A'', ''B'', ''STUDIES_WITH''),
               (''B'', ''C'', ''CLASSMATE''), (''C'', ''X'', ''RESEARCHES'')]\<rparr>"

definition loop_store :: store where
  "loop_store =
     \<lparr>nodes = [(''A'', [(''Name'', ''Frank''), (''Type'', ''Person'')])],
      edges = [(''A'', ''A'', ''FRIENDS_WITH'')]\<rparr>"

section \<open>Lemmas\<close>

lemma map_of_dict_set: "map_of (dict_set d k v) = (map_of d)(k \<mapsto> v)"
  by (induction d k v rule: dict_set.induct) auto

lemma dict_get_dict_set: "dict_get (dict_set d k v) k' = (if k' = k then Some v else dict_get d k')"
  by (simp add: dict_get_def map_of_dict_set)

lemma parse_relationship_line_Nil: "parse_relationship_line [] = Inl (InvalidRelationshipLine ''Error processing relationship: '')"
  by (simp add: parse_relationship_line_def split_ws_def)

lemma parse_relationship_line_Inr_nonempty: "parse_relationship_line x = Inr r \<Longrightarrow> x \<noteq> []"
  by (auto simp: parse_relationship_line_Nil)

lemma has_node_setdefault: "setdefault_type s n t = Inr s' \<Longrightarrow> has_node s' m = has_node s m"
  by (auto simp: setdefault_type_def has_node_def dict_get_dict_set split: option.splits if_splits)

lemma edges_setdefault: "setdefault_type s n t = Inr s' \<Longrightarrow> edges s' = edges s"
  by (auto simp: setdefault_type_def split: option.splits)

lemma setdefault_Inr_iff: "(\<exists>s'. setdefault_type s n t = Inr s') \<longleftrightarrow> has_node s n"
  by (auto simp: setdefault_type_def has_node_def split: option.splits)

lemma setdefault_Inl: "setdefault_type s n t = Inl e \<Longrightarrow> e = KeyError n \<and> \<not> has_node s n"
  by (auto simp: setdefault_type_def has_node_def split: option.splits)

lemma stored_type_setdefault_eq:
  "setdefault_type s n t = Inr s' \<Longrightarrow>
   stored_type s' m = (if m = n \<and> stored_type s n = None then Some t else stored_type s m)"
  by (auto simp: stored_type_def setdefault_type_def dict_get_dict_set split: option.splits if_splits)

lemma add_edge_present:
  "has_node s u \<Longrightarrow> has_node s v \<Longrightarrow> add_edge s u v rel = s\<lparr>edges := edges s @ [(u, v, rel)]\<rparr>"
  by (auto simp: add_edge_def has_node_def)

lemma relationship_step_blank: "strip l = [] \<Longrightarrow> relationship_step s l = (Returned, s)"
  by (simp add: relationship_step_def)

lemma relationship_step_malformed:
  "malformed l \<Longrightarrow>
   relationship_step s l =
     (Raised (InvalidRelationshipLine (''Error processing relationship: '' @ strip l)), s)"
  by (simp add: relationship_step_def malformed_def parse_relationship_line_def)

lemma parse_relationship_line_Inl:
  "parse_relationship_line x = Inl e \<Longrightarrow>
   e = InvalidRelationshipLine (''Error processing relationship: '' @ x) \<and> length (split_ws x) \<noteq> 5"
  by (auto simp: parse_relationship_line_def Let_def split: if_splits)

lemma parse_relationship_line_Inr:
  "parse_relationship_line x = Inr r \<Longrightarrow> length (split_ws x) = 5"
  by (auto simp: parse_relationship_line_def Let_def split: if_splits)

lemma relationship_step_ok:
  assumes p: "parse_relationship_line (strip l) = Inr (rel, id1, type1, id2, type2)"
    and h1: "has_node s id1" and h2: "has_node s id2"
  shows "\<exists>s'. relationship_step s l = (Returned, s') \<and>
              edges s' = edges s @ [(id1, id2, rel)] \<and>
              (\<forall>n. has_node s' n = has_node s n) \<and>
              stored_type s' id1 = Some (case stored_type s id1 of Some t \<Rightarrow> t | None \<Rightarrow> type1) \<and>
              stored_type s' id2 =
                Some (case stored_type s id2 of Some t \<Rightarrow> t
                      | None \<Rightarrow> if id2 = id1 then type1 else type2)"
proof -
  have ne: "strip l \<noteq> []" using p by (rule parse_relationship_line_Inr_nonempty)
  from h1 obtain s1 where s1: "setdefault_type s id1 type1 = Inr s1"
    using setdefault_Inr_iff by blast
  have "has_node s1 id2" using h2 has_node_setdefault[OF s1] by simp
  then obtain s2 where s2: "setdefault_type s1 id2 type2 = Inr s2"
    using setdefault_Inr_iff by blast
  have n2: "\<And>n. has_node s2 n = has_node s n"
    using has_node_setdefault[OF s1] has_node_setdefault[OF s2] by simp
  have e2: "edges s2 = edges s"
    using edges_setdefault[OF s1] edges_setdefault[OF s2] by simp
  let ?s' = "s2\<lparr>edges := edges s2 @ [(id1, id2, rel)]\<rparr>"
  have st: "relationship_step s l = (Returned, ?s')"
    using ne p s1 s2 h1 h2 n2 by (simp add: relationship_step_def add_edge_present)
  have ty: "\<And>m E. stored_type (s2\<lparr>edges := E\<rparr>) m = stored_type s2 m"
    by (simp add: stored_type_def)
  have hn: "\<And>m E. has_node (s2\<lparr>edges := E\<rparr>) m = has_node s2 m"
    by (simp add: has_node_def)
  have t1: "stored_type s1 id1 = Some (case stored_type s id1 of Some t \<Rightarrow> t | None \<Rightarrow> type1)"
    using stored_type_setdefault_eq[OF s1, of id1] by (auto split: option.splits)
  have t1': "stored_type s2 id1 = stored_type s1 id1"
    using stored_type_setdefault_eq[OF s2, of id1] t1 by (auto split: if_splits)
  have t2: "stored_type s2 id2 =
      Some (case stored_type s id2 of Some t \<Rightarrow> t | None \<Rightarrow> if id2 = id1 then type1 else type2)"
    using stored_type_setdefault_eq[OF s2, of id2] stored_type_setdefault_eq[OF s1, of id2]
    by (auto split: option.splits if_splits)
  show ?thesis
    using st e2 n2 t1 t1' t2 by (simp add: ty hn)
qed

lemma relationship_step_unknown:
  assumes p: "parse_relationship_line (strip l) = Inr (rel, id1, type1, id2, type2)"
    and h: "\<not> (has_node s id1 \<and> has_node s id2)"
  shows "\<exists>s'. relationship_step s l = (Raised (KeyError (if has_node s id1 then id2 else id1)), s') \<and>
              edges s' = edges s \<and> (\<forall>n. has_node s' n = has_node s n)"
proof -
  have ne: "strip l \<noteq> []" using p by (rule parse_relationship_line_Inr_nonempty)
  show ?thesis
  proof (cases "has_node s id1")
    case False
    then have "setdefault_type s id1 type1 = Inl (KeyError id1)"
      by (simp add: setdefault_type_def has_node_def)
    with ne p False show ?thesis by (simp add: relationship_step_def)
  next
    case True
    then obtain s1 where s1: "setdefault_type s id1 type1 = Inr s1"
      using setdefault_Inr_iff by blast
    from True h have "\<not> has_node s1 id2" using has_node_setdefault[OF s1] by simp
    then have "setdefault_type s1 id2 type2 = Inl (KeyError id2)"
      by (simp add: setdefault_type_def has_node_def)
    with ne p True s1 show ?thesis
      using has_node_setdefault[OF s1] edges_setdefault[OF s1]
      by (simp add: relationship_step_def)
  qed
qed

lemma endpoints_known_cong:
  assumes "\<And>n. has_node s' n = has_node s n"
  shows "endpoints_known s' ls = endpoints_known s ls"
  unfolding endpoints_known_def using assms by presburger

lemma not_malformed_cases:
  assumes "\<not> malformed l"
  obtains (blank) "strip l = []"
  | (valid) rel id1 type1 id2 type2
      where "parse_relationship_line (strip l) = Inr (rel, id1, type1, id2, type2)"
proof (cases "strip l = []")
  case True
  then show ?thesis by (rule blank)
next
  case False
  with assms have "length (split_ws (strip l)) = 5" by (simp add: malformed_def)
  then have "\<exists>r. parse_relationship_line (strip l) = Inr r"
    by (simp add: parse_relationship_line_def Let_def)
  then show ?thesis using valid by (metis prod_cases5)
qed

lemma malformed_parse: "malformed l \<Longrightarrow> \<exists>e. parse_relationship_line (strip l) = Inl e"
  by (simp add: malformed_def parse_relationship_line_def)

lemma relationship_loop_prefix:
  "\<forall>x\<in>set pre. \<not> malformed x \<Longrightarrow> endpoints_known s pre \<Longrightarrow>
   \<exists>s'. relationship_loop s (pre @ rest) = relationship_loop s' rest \<and>
        edges s' = edges s @ declared_edges pre \<and> (\<forall>n. has_node s' n = has_node s n)"
proof (induction pre arbitrary: s)
  case Nil
  then show ?case by auto
next
  case (Cons l pre)
  from Cons.prems have nm: "\<not> malformed l" by simp
  from nm show ?case
  proof (cases rule: not_malformed_cases)
    case blank
    have ek: "endpoints_known s pre" using Cons.prems by (simp add: endpoints_known_def)
    from Cons.IH[OF _ ek] Cons.prems(1) blank show ?thesis
      by (simp add: relationship_step_blank parse_relationship_line_Nil)
  next
    case (valid rel id1 type1 id2 type2)
    with Cons.prems(2) have h: "has_node s id1" "has_node s id2"
      by (simp_all add: endpoints_known_def)
    from relationship_step_ok[OF valid h] obtain s1 where
      s1: "relationship_step s l = (Returned, s1)"
        "edges s1 = edges s @ [(id1, id2, rel)]" "\<forall>n. has_node s1 n = has_node s n"
      by blast
    have ek: "endpoints_known s1 pre"
      using Cons.prems(2) endpoints_known_cong[of s1 s pre] s1(3)
      by (simp add: endpoints_known_def)
    from Cons.IH[OF _ ek] Cons.prems(1) obtain s' where
      "relationship_loop s1 (pre @ rest) = relationship_loop s' rest"
      "edges s' = edges s1 @ declared_edges pre" "\<forall>n. has_node s' n = has_node s1 n"
      by auto
    with s1 valid show ?thesis by auto
  qed
qed

lemma relationship_loop_invalid_only_if:
  "fst (relationship_loop s ls) = Raised (InvalidRelationshipLine m) \<Longrightarrow>
   \<exists>pre l post. ls = pre @ l # post \<and> malformed l \<and>
      m = ''Error processing relationship: '' @ strip l \<and>
      (\<forall>x\<in>set pre. \<not> malformed x) \<and> endpoints_known s pre"
proof (induction ls arbitrary: s)
  case Nil
  then show ?case by simp
next
  case (Cons a ls)
  show ?case
  proof (cases "malformed a")
    case True
    with Cons.prems have "m = ''Error processing relationship: '' @ strip a"
      by (simp add: relationship_step_malformed)
    with True have "a # ls = [] @ a # ls \<and> malformed a \<and>
        m = ''Error processing relationship: '' @ strip a \<and>
        (\<forall>x\<in>set []. \<not> malformed x) \<and> endpoints_known s []"
      by (simp add: endpoints_known_def)
    then show ?thesis by blast
  next
    case False
    then show ?thesis
    proof (cases rule: not_malformed_cases)
      case blank
      with Cons.prems have "fst (relationship_loop s ls) = Raised (InvalidRelationshipLine m)"
        by (simp add: relationship_step_blank)
      from Cons.IH[OF this] obtain pre l post where
        *: "ls = pre @ l # post" "malformed l" "m = ''Error processing relationship: '' @ strip l"
           "\<forall>x\<in>set pre. \<not> malformed x" "endpoints_known s pre"
        by blast
      with False blank have "a # ls = (a # pre) @ l # post \<and> malformed l \<and>
          m = ''Error processing relationship: '' @ strip l \<and>
          (\<forall>x\<in>set (a # pre). \<not> malformed x) \<and> endpoints_known s (a # pre)"
        by (simp add: endpoints_known_def parse_relationship_line_Nil)
      then show ?thesis by blast
    next
      case (valid rel id1 type1 id2 type2)
      show ?thesis
      proof (cases "has_node s id1 \<and> has_node s id2")
        case unk: False
        from relationship_step_unknown[OF valid unk] Cons.prems show ?thesis by auto
      next
        case True
        then have h: "has_node s id1" "has_node s id2" by simp_all
        from relationship_step_ok[OF valid h] obtain s1 where
          s1: "relationship_step s a = (Returned, s1)" "\<forall>n. has_node s1 n = has_node s n"
          by blast
        with Cons.prems have "fst (relationship_loop s1 ls) = Raised (InvalidRelationshipLine m)"
          by simp
        from Cons.IH[OF this] obtain pre l post where
          *: "ls = pre @ l # post" "malformed l" "m = ''Error processing relationship: '' @ strip l"
             "\<forall>x\<in>set pre. \<not> malformed x" "endpoints_known s1 pre"
          by blast
        have "endpoints_known s pre"
          using *(5) endpoints_known_cong[of s1 s pre] s1(2) by simp
        with * False valid h have "a # ls = (a # pre) @ l # post \<and> malformed l \<and>
            m = ''Error processing relationship: '' @ strip l \<and>
            (\<forall>x\<in>set (a # pre). \<not> malformed x) \<and> endpoints_known s (a # pre)"
          by (simp add: endpoints_known_def)
        then show ?thesis by blast
      qed
    qed
  qed
qed

lemma relationship_step_sim:
  assumes "\<And>n. has_node t n = has_node s n"
  shows "fst (relationship_step t l) = fst (relationship_step s l) \<and>
         (\<exists>E. edges (snd (relationship_step s l)) = edges s @ E \<and>
              edges (snd (relationship_step t l)) = edges t @ E) \<and>
         (\<forall>n. has_node (snd (relationship_step s l)) n = has_node s n) \<and>
         (\<forall>n. has_node (snd (relationship_step t l)) n = has_node t n)"
proof (cases "malformed l")
  case True
  then show ?thesis by (simp add: relationship_step_malformed)
next
  case False
  then show ?thesis
  proof (cases rule: not_malformed_cases)
    case blank
    then show ?thesis by (simp add: relationship_step_blank)
  next
    case (valid rel id1 type1 id2 type2)
    show ?thesis
    proof (cases "has_node s id1 \<and> has_node s id2")
      case True
      then have hs: "has_node s id1" "has_node s id2" and ht: "has_node t id1" "has_node t id2"
        using assms by simp_all
      from relationship_step_ok[OF valid hs] relationship_step_ok[OF valid ht]
      show ?thesis by fastforce
    next
      case False
      then have ft: "\<not> (has_node t id1 \<and> has_node t id2)" using assms by simp
      from relationship_step_unknown[OF valid False] relationship_step_unknown[OF valid ft] assms
      show ?thesis by fastforce
    qed
  qed
qed

lemma relationship_loop_sim:
  "(\<And>n. has_node t n = has_node s n) \<Longrightarrow>
   fst (relationship_loop t ls) = fst (relationship_loop s ls) \<and>
   (\<exists>E. edges (snd (relationship_loop s ls)) = edges s @ E \<and>
        edges (snd (relationship_loop t ls)) = edges t @ E) \<and>
   (\<forall>n. has_node (snd (relationship_loop s ls)) n = has_node s n)"
proof (induction ls arbitrary: s t)
  case Nil
  then show ?case by simp
next
  case (Cons l ls)
  obtain rs s1 where rs: "relationship_step s l = (rs, s1)" by (cases "relationship_step s l")
  obtain rt t1 where rt: "relationship_step t l = (rt, t1)" by (cases "relationship_step t l")
  from relationship_step_sim[OF Cons.prems, of l] rs rt obtain E where
    sim: "rt = rs" "edges s1 = edges s @ E" "edges t1 = edges t @ E"
      "\<forall>n. has_node s1 n = has_node s n" "\<forall>n. has_node t1 n = has_node t n"
    by auto
  show ?case
  proof (cases rs)
    case (Raised e)
    with rs rt sim show ?thesis by simp
  next
    case Returned
    have "\<And>n. has_node t1 n = has_node s1 n" using sim Cons.prems by simp
    from Cons.IH[OF this] obtain E' where
      "fst (relationship_loop t1 ls) = fst (relationship_loop s1 ls)"
      "edges (snd (relationship_loop s1 ls)) = edges s1 @ E'"
      "edges (snd (relationship_loop t1 ls)) = edges t1 @ E'"
      "\<forall>n. has_node (snd (relationship_loop s1 ls)) n = has_node s1 n"
      by blast
    with Returned rs rt sim show ?thesis by simp
  qed
qed

lemma stored_type_setdefault:
  "stored_type s n = Some t \<Longrightarrow> setdefault_type s m u = Inr s' \<Longrightarrow> stored_type s' n = Some t"
  by (auto simp: stored_type_setdefault_eq)

lemma stored_type_add_edge:
  "stored_type s n = Some t \<Longrightarrow> stored_type (add_edge s u v rel) n = Some t"
  by (auto simp: stored_type_def add_edge_def Let_def dict_get_dict_set split: option.splits if_splits)

lemma stored_type_step:
  "stored_type s n = Some t \<Longrightarrow> stored_type (snd (relationship_step s l)) n = Some t"
  by (auto simp: relationship_step_def Let_def split: sum.splits prod.splits
           dest: stored_type_setdefault intro: stored_type_add_edge)

lemma stored_type_loop:
  "stored_type s n = Some t \<Longrightarrow> stored_type (snd (relationship_loop s ls)) n = Some t"
proof (induction ls arbitrary: s)
  case Nil
  then show ?case by simp
next
  case (Cons l ls)
  obtain r s' where st: "relationship_step s l = (r, s')" by (cases "relationship_step s l")
  with Cons.prems stored_type_step[of s n t l] have t': "stored_type s' n = Some t" by simp
  show ?case
  proof (cases r)
    case Returned
    with st Cons.IH[OF t'] show ?thesis by simp
  next
    case (Raised e)
    with st t' show ?thesis by simp
  qed
qed

lemma parse_property_line_error: "parse_property_line l = Inl e \<Longrightarrow> e = IndexError"
  by (auto simp: parse_property_line_def split: list.splits)

lemma parse_property_line_short:
  "length (split_ws l) < 2 \<Longrightarrow> parse_property_line l = Inl IndexError"
  by (auto simp: parse_property_line_def split: list.splits)

lemma parse_properties_short:
  "l \<in> set ls \<Longrightarrow> strip l \<noteq> [] \<Longrightarrow> length (split_ws (strip l)) < 2 \<Longrightarrow>
   parse_properties pe ls = Inl IndexError"
proof (induction ls arbitrary: pe)
  case Nil
  then show ?case by simp
next
  case (Cons a ls)
  show ?case
  proof (cases "a = l")
    case True
    with Cons.prems show ?thesis by (simp add: parse_property_line_short)
  next
    case False
    with Cons have "\<And>pe'. parse_properties pe' ls = Inl IndexError" by simp
    then show ?thesis
      by (auto simp: Let_def split: sum.splits dest: parse_property_line_error)
  qed
qed

lemmas eval_defs = add_relationships_from_file_def relationship_step_def parse_relationship_line_def
  strip_def split_ws_def is_space_def setdefault_type_def dict_get_def add_edge_def empty_store_def
  has_node_def stored_type_def malformed_def endpoints_known_def edge_count_def
  add_properties_from_file_def parse_property_line_def set_property_def add_node_def

lemma edge_count_append:
  "edges s' = edges s @ E \<Longrightarrow>
   edge_count s' a b = edge_count s a b + length (filter (\<lambda>(u, v, rel). u = a \<and> v = b) E)"
  by (simp add: edge_count_def)

lemma dict_set_same: "map_of d k = Some v \<Longrightarrow> dict_set d k v = d"
  by (induction d k v rule: dict_set.induct) (auto split: if_splits)

lemma keys_dict_set: "fst ` set (dict_set d k v) = insert k (fst ` set d)"
  by (induction d k v rule: dict_set.induct) auto

lemma distinct_keys_dict_set:
  "distinct (map fst d) \<Longrightarrow> distinct (map fst (dict_set d k v))"
proof (induction d k v rule: dict_set.induct)
  case (1 k v)
  then show ?case by simp
next
  case (2 k' v' d k v)
  show ?case
  proof (cases "k' = k")
    case True
    with 2 show ?thesis by simp
  next
    case False
    have "k' \<notin> fst ` set (dict_set d k v)"
      using 2(2) False by (simp add: keys_dict_set)
    with False 2 show ?thesis by simp
  qed
qed

lemma dict_update_covered: "covers d other \<Longrightarrow> dict_update d other = d"
  by (induction d other rule: dict_update.induct) (auto simp: covers_def dict_set_same)

lemma map_of_dict_update_notin:
  "k \<notin> fst ` set other \<Longrightarrow> map_of (dict_update d other) k = map_of d k"
  by (induction d other rule: dict_update.induct) (auto simp: map_of_dict_set)

lemma covers_dict_update:
  "distinct (map fst other) \<Longrightarrow> covers (dict_update d other) other"
proof (induction d other rule: dict_update.induct)
  case (1 d)
  then show ?case by (simp add: covers_def)
next
  case (2 d k v other)
  then have "covers (dict_update (dict_set d k v) other) other" by simp
  moreover have "map_of (dict_update (dict_set d k v) other) k = Some v"
    using 2(2) by (simp add: map_of_dict_update_notin map_of_dict_set)
  ultimately show ?case by (simp add: covers_def)
qed

lemma add_node_covered: "node_covers s (n, nd) \<Longrightarrow> add_node s n nd = s"
  by (auto simp: node_covers_def add_node_def dict_get_def dict_update_covered dict_set_same
           split: option.splits)

lemma add_nodes_from_covered: "\<forall>x\<in>set pe. node_covers s x \<Longrightarrow> add_nodes_from s pe = s"
  by (induction s pe rule: add_nodes_from.induct) (auto simp: add_node_covered)

lemma node_covers_add_node_self:
  "distinct (map fst nd) \<Longrightarrow> node_covers (add_node s n nd) (n, nd)"
  by (auto simp: node_covers_def add_node_def dict_get_def map_of_dict_set covers_dict_update
           split: option.splits)

lemma node_covers_add_node_other:
  "m \<noteq> n \<Longrightarrow> node_covers s (m, md) \<Longrightarrow> node_covers (add_node s n nd) (m, md)"
  by (auto simp: node_covers_def add_node_def dict_get_def map_of_dict_set split: option.splits)

lemma node_covers_add_nodes_from_other:
  "m \<notin> fst ` set pe \<Longrightarrow> node_covers s (m, md) \<Longrightarrow> node_covers (add_nodes_from s pe) (m, md)"
  by (induction s pe rule: add_nodes_from.induct) (auto simp: node_covers_add_node_other)

lemma node_covers_add_nodes_from:
  "distinct (map fst pe) \<Longrightarrow> \<forall>x\<in>set pe. distinct (map fst (snd x)) \<Longrightarrow>
   \<forall>x\<in>set pe. node_covers (add_nodes_from s pe) x"
proof (induction s pe rule: add_nodes_from.induct)
  case (1 s)
  then show ?case by simp
next
  case (2 s n ndict rest)
  have "node_covers (add_node s n ndict) (n, ndict)"
    using 2(3) by (simp add: node_covers_add_node_self)
  then have "node_covers (add_nodes_from (add_node s n ndict) rest) (n, ndict)"
    using 2(2) by (simp add: node_covers_add_nodes_from_other)
  with 2 show ?case by simp
qed

lemma set_dict_set_subset: "set (dict_set d k v) \<subseteq> insert (k, v) (set d)"
  by (induction d k v rule: dict_set.induct) auto

lemma dict_ok_set_property: "dict_ok pe \<Longrightarrow> dict_ok (set_property pe i p v)"
proof -
  assume ok: "dict_ok pe"
  have inner: "distinct (map fst (case dict_get pe i of None \<Rightarrow> dict_set [] p v | Some d \<Rightarrow> dict_set d p v))"
  proof (cases "dict_get pe i")
    case None
    then show ?thesis by simp
  next
    case (Some d)
    then have "(i, d) \<in> set pe" by (simp add: dict_get_def map_of_SomeD)
    with ok have "distinct (map fst d)" by (auto simp: dict_ok_def)
    with Some show ?thesis by (simp add: distinct_keys_dict_set)
  qed
  have "dict_ok (dict_set pe i d')" if d': "distinct (map fst d')" for d'
  proof -
    have "\<forall>x\<in>set (dict_set pe i d'). distinct (map fst (snd x))"
      using ok d' set_dict_set_subset[of pe i d'] by (auto simp: dict_ok_def)
    with ok show ?thesis by (simp add: dict_ok_def distinct_keys_dict_set)
  qed
  from this[OF inner] show ?thesis
    by (auto simp: set_property_def split: option.splits)
qed

lemma dict_ok_parse_properties:
  "dict_ok pe \<Longrightarrow> parse_properties pe ls = Inr pe' \<Longrightarrow> dict_ok pe'"
  by (induction pe ls rule: parse_properties.induct)
     (auto simp: Let_def dict_ok_set_property split: if_splits sum.splits)

lemma add_nodes_from_idem:
  "dict_ok pe \<Longrightarrow> add_nodes_from (add_nodes_from s pe) pe = add_nodes_from s pe"
  by (simp add: dict_ok_def add_nodes_from_covered node_covers_add_nodes_from)

lemma neighbors_dict_set:
  "neighbors (dict_set g u ns) w = (if w = u then ns else neighbors g w)"
  by (simp add: neighbors_def dict_get_dict_set)

lemma neighbors_graph_add_node: "neighbors (graph_add_node g n) w = neighbors g w"
  by (auto simp: graph_add_node_def neighbors_dict_set) (simp add: neighbors_def)

lemma keys_graph_add_node: "fst ` set (graph_add_node g n) = insert n (fst ` set g)"
proof (cases "dict_get g n")
  case None
  then show ?thesis by (simp add: graph_add_node_def keys_dict_set)
next
  case (Some ns)
  then have "(n, ns) \<in> set g" by (simp add: dict_get_def map_of_SomeD)
  then have "n \<in> fst ` set g" by force
  with Some show ?thesis by (auto simp: graph_add_node_def)
qed

lemma distinct_graph_add_node: "distinct (map fst g) \<Longrightarrow> distinct (map fst (graph_add_node g n))"
  by (simp add: graph_add_node_def distinct_keys_dict_set)

lemma set_neighbors_adj_add:
  "set (neighbors (adj_add g u v) w) = set (neighbors g w) \<union> (if w = u then {v} else {})"
  by (auto simp: adj_add_def neighbors_dict_set)

lemma distinct_neighbors_adj_add:
  "distinct (neighbors g w) \<Longrightarrow> distinct (neighbors (adj_add g u v) w)"
  by (auto simp: adj_add_def neighbors_dict_set)

lemma keys_adj_add: "fst ` set (adj_add g u v) = insert u (fst ` set g)"
  by (simp add: adj_add_def keys_dict_set)

lemma distinct_adj_add: "distinct (map fst g) \<Longrightarrow> distinct (map fst (adj_add g u v))"
  by (simp add: adj_add_def distinct_keys_dict_set)

lemma set_neighbors_graph_add_edge:
  "set (neighbors (graph_add_edge g a b) w) =
     set (neighbors g w) \<union> (if w = a then {b} else {}) \<union> (if w = b then {a} else {})"
  by (auto simp: graph_add_edge_def set_neighbors_adj_add neighbors_graph_add_node)

lemma keys_graph_add_edge: "fst ` set (graph_add_edge g a b) = insert a (insert b (fst ` set g))"
  by (auto simp: graph_add_edge_def keys_adj_add keys_graph_add_node)

lemma graph_ok_graph_add_edge: "graph_ok g \<Longrightarrow> graph_ok (graph_add_edge g a b)"
  by (simp add: graph_ok_def graph_add_edge_def distinct_adj_add distinct_graph_add_node
        distinct_neighbors_adj_add neighbors_graph_add_node)

lemma add_edges_from_ok:
  "\<forall>(a, b)\<in>set es. a \<noteq> b \<Longrightarrow>
   \<exists>G. add_edges_from g es = Inr G \<and>
       (\<forall>u. set (neighbors G u) = set (neighbors g u) \<union> {v. (u, v) \<in> und (set es)}) \<and>
       fst ` set G = fst ` set g \<union> fst ` set es \<union> snd ` set es \<and>
       (graph_ok g \<longrightarrow> graph_ok G)"
proof (induction g es rule: add_edges_from.induct)
  case (1 g)
  then show ?case by (simp add: und_def)
next
  case (2 g n1 n2 es)
  then have ne: "n1 \<noteq> n2" and rest: "\<forall>(a, b)\<in>set es. a \<noteq> b" by auto
  from 2(1)[OF ne rest] obtain G where G:
    "add_edges_from (graph_add_edge g n1 n2) es = Inr G"
    "\<forall>u. set (neighbors G u) = set (neighbors (graph_add_edge g n1 n2) u) \<union> {v. (u, v) \<in> und (set es)}"
    "fst ` set G = fst ` set (graph_add_edge g n1 n2) \<union> fst ` set es \<union> snd ` set es"
    "graph_ok (graph_add_edge g n1 n2) \<longrightarrow> graph_ok G"
    by blast
  have a: "\<forall>u. set (neighbors G u) = set (neighbors g u) \<union> {v. (u, v) \<in> und (set ((n1, n2) # es))}"
    using G(2) by (auto simp: set_neighbors_graph_add_edge und_def split: if_splits)
  have b: "fst ` set G = fst ` set g \<union> fst ` set ((n1, n2) # es) \<union> snd ` set ((n1, n2) # es)"
    using G(3) by (auto simp: keys_graph_add_edge)
  from G(1,4) ne a b show ?case by (simp add: graph_ok_graph_add_edge)
qed

lemma add_edges_from_loop:
  "(a, a) \<in> set es \<Longrightarrow> add_edges_from g es = Inl NetworkXError"
  by (induction g es rule: add_edges_from.induct) auto

lemma und_set_add: "und (set (set_add acc e)) = und (insert e (set acc))"
  by (cases e) (auto simp: set_add_def und_def list_ex_iff same_frozenset_def)

lemma und_insert: "und (insert e R) = und {e} \<union> und R"
  by (auto simp: und_def)

lemma und_friend_edges:
  "und (set (friend_edges es acc)) =
   und (set acc \<union> {(a, b). (a, b, ''FRIENDS_WITH'') \<in> set es})"
proof (induction es acc rule: friend_edges.induct)
  case (1 acc)
  then show ?case by simp
next
  case (2 n1 n2 rel es acc)
  show ?case
  proof (cases "rel = ''FRIENDS_WITH''")
    case True
    have "und (set (friend_edges ((n1, n2, rel) # es) acc)) =
        und (set (set_add acc (n1, n2)) \<union> {(a, b). (a, b, ''FRIENDS_WITH'') \<in> set es})"
      using True 2(1) by simp
    also have "\<dots> = und (set (set_add acc (n1, n2))) \<union> und {(a, b). (a, b, ''FRIENDS_WITH'') \<in> set es}"
      by (auto simp: und_def)
    also have "\<dots> = und (insert (n1, n2) (set acc)) \<union> und {(a, b). (a, b, ''FRIENDS_WITH'') \<in> set es}"
      by (simp add: und_set_add)
    also have "\<dots> = und (set acc \<union> {(a, b). (a, b, ''FRIENDS_WITH'') \<in> set ((n1, n2, rel) # es)})"
      using True by (auto simp: und_def)
    finally show ?thesis .
  next
    case False
    with 2(2) show ?thesis by (auto simp: und_def)
  qed
qed

lemma subseq_set: "subseq xs ys \<Longrightarrow> set xs \<subseteq> set ys"
  by (auto elim: list_emb_set)

lemma subseq_distinct: "subseq xs ys \<Longrightarrow> distinct ys \<Longrightarrow> distinct xs"
  by (induction rule: list_emb.induct) (auto dest: subseq_set)

lemma append_snoc_comp: "(@) (b @ [a]) = (@) b \<circ> (#) a"
  by auto

lemma outputs_children:
  "mset (outputs nbrs (children nbrs b c)) + {#b#} = mset (map ((@) b) (oksubs nbrs c))"
proof (induction c)
  case Nil
  then show ?case by (simp add: outputs_def)
next
  case (Cons a c)
  let ?F = "filter (\<lambda>v. v \<in> set (nbrs_of nbrs a)) c"
  have "mset (outputs nbrs (children nbrs b (a # c))) + {#b#} =
      mset (map ((@) (b @ [a])) (oksubs nbrs ?F)) + (mset (outputs nbrs (children nbrs b c)) + {#b#})"
    by (simp add: outputs_def)
  also have "\<dots> = mset (map ((@) (b @ [a])) (oksubs nbrs ?F)) + mset (map ((@) b) (oksubs nbrs c))"
    by (simp only: Cons.IH)
  also have "\<dots> = mset (map ((@) b) (oksubs nbrs (a # c)))"
    by (simp add: append_snoc_comp)
  finally show ?case .
qed

lemma outputs_append: "outputs nbrs (p @ q) = outputs nbrs p @ outputs nbrs q"
  by (simp add: outputs_def)

lemma mset_bfs: "mset (bfs nbrs queue) = mset (outputs nbrs queue)"
proof (induction nbrs queue rule: bfs.induct)
  case (1 nbrs)
  then show ?case by (simp add: outputs_def)
next
  case (2 nbrs base cnbrs queue)
  have "mset (bfs nbrs ((base, cnbrs) # queue)) =
      {#base#} + mset (outputs nbrs queue) + mset (outputs nbrs (children nbrs base cnbrs))"
    using 2 by (simp add: outputs_append)
  also have "\<dots> = mset (outputs nbrs queue) + mset (map ((@) base) (oksubs nbrs cnbrs))"
    using outputs_children[of nbrs base cnbrs] by (simp add: add.commute add.left_commute)
  also have "\<dots> = mset (outputs nbrs ((base, cnbrs) # queue))"
    by (simp add: outputs_def)
  finally show ?case .
qed

lemma subseq_into_filter:
  "subseq t xs \<Longrightarrow> \<forall>x\<in>set t. P x \<Longrightarrow> subseq t (filter P xs)"
proof -
  assume s: "subseq t xs" and p: "\<forall>x\<in>set t. P x"
  have "subseq (filter P t) (filter P xs)" using s by simp
  moreover have "filter P t = t" using p by simp
  ultimately show ?thesis by simp
qed

lemma oksubs_iff: "t \<in> set (oksubs nbrs c) \<longleftrightarrow> subseq t c \<and> chain nbrs t"
proof (induction nbrs c arbitrary: t rule: oksubs.induct)
  case (1 nbrs)
  then show ?case by auto
next
  case (2 nbrs u rest)
  let ?F = "filter (\<lambda>v. v \<in> set (nbrs_of nbrs u)) rest"
  show ?case
  proof
    assume "t \<in> set (oksubs nbrs (u # rest))"
    then consider t' where "t = u # t'" "t' \<in> set (oksubs nbrs ?F)" | "t \<in> set (oksubs nbrs rest)"
      by auto
    then show "subseq t (u # rest) \<and> chain nbrs t"
    proof cases
      case 1
      then have s: "subseq t' ?F" and c: "chain nbrs t'" using 2(1) by simp_all
      have "subseq ?F rest" by simp
      with s have "subseq t' rest" by (rule subseq_order.order_trans)
      moreover have "set t' \<subseteq> set (nbrs_of nbrs u)"
        using subseq_set[OF s] by auto
      ultimately show ?thesis using 1 c by simp
    next
      case 2
      then show ?thesis using "2.IH"(2) by auto
    qed
  next
    assume a: "subseq t (u # rest) \<and> chain nbrs t"
    show "t \<in> set (oksubs nbrs (u # rest))"
    proof (cases t)
      case Nil
      then show ?thesis using "2.IH"(2)[of "[]"] by simp
    next
      case (Cons x t')
      show ?thesis
      proof (cases "x = u")
        case True
        with a Cons have s: "subseq t' rest" and sub: "set t' \<subseteq> set (nbrs_of nbrs u)"
          and c: "chain nbrs t'" by simp_all
        have "subseq t' ?F" using s sub by (intro subseq_into_filter) auto
        with c have "t' \<in> set (oksubs nbrs ?F)" using "2.IH"(1) by simp
        with Cons True show ?thesis by simp
      next
        case False
        with a Cons have "subseq t rest" by simp
        with a show ?thesis using "2.IH"(2) by simp
      qed
    qed
  qed
qed

lemma distinct_oksubs: "distinct c \<Longrightarrow> distinct (oksubs nbrs c)"
proof (induction nbrs c rule: oksubs.induct)
  case (1 nbrs)
  then show ?case by simp
next
  case (2 nbrs u rest)
  let ?F = "filter (\<lambda>v. v \<in> set (nbrs_of nbrs u)) rest"
  have d1: "distinct (map ((#) u) (oksubs nbrs ?F))"
    using 2 by (simp add: distinct_map)
  have d2: "distinct (oksubs nbrs rest)" using 2 by simp
  have "u \<notin> set t" if "t \<in> set (oksubs nbrs rest)" for t
  proof -
    from that have "subseq t rest" by (simp add: oksubs_iff)
    then have "set t \<subseteq> set rest" by (rule subseq_set) 
    with 2(3) show ?thesis by auto
  qed
  then have "set (map ((#) u) (oksubs nbrs ?F)) \<inter> set (oksubs nbrs rest) = {}"
    by fastforce
  with d1 d2 show ?case by simp
qed

lemma set_after: "set (after xs x) \<subseteq> set xs"
  by (induction xs) auto

lemma after_notin: "distinct xs \<Longrightarrow> x \<notin> set (after xs x)"
  using set_after by (induction xs) auto

lemma subseq_after: "subseq (x # t) xs \<Longrightarrow> subseq t (after xs x)"
  by (induction xs) (auto split: if_splits)

lemma cons_after_subseq: "x \<in> set xs \<Longrightarrow> subseq (x # after xs x) xs"
  by (induction xs) auto

lemma filter_after:
  "distinct xs \<Longrightarrow> A \<subseteq> set (after xs x) \<Longrightarrow>
   filter (\<lambda>v. v \<in> A) xs = filter (\<lambda>v. v \<in> A) (after xs x)"
proof (induction xs)
  case Nil
  then show ?case by simp
next
  case (Cons w ws)
  show ?case
  proof (cases "w = x")
    case True
    with Cons.prems show ?thesis by auto
  next
    case False
    have "w \<notin> set (after ws x)" using set_after[of ws x] Cons.prems(1) by auto
    with False Cons show ?thesis by auto
  qed
qed

lemma index_nbrs_keys: "map fst (index_nbrs g idx us) = us"
  by (induction g idx us rule: index_nbrs.induct) auto

lemma nbrs_of_index_nbrs:
  "distinct us \<Longrightarrow> u \<in> set us \<Longrightarrow> set (neighbors g u) \<subseteq> set idx \<union> set us \<Longrightarrow>
   set idx \<inter> set us = {} \<Longrightarrow>
   set (nbrs_of (index_nbrs g idx us) u) = set (neighbors g u) \<inter> set (after us u)"
proof (induction g idx us rule: index_nbrs.induct)
  case (1 g index)
  then show ?case by simp
next
  case (2 g index w ws)
  show ?case
  proof (cases "w = u")
    case True
    with 2(2-) show ?thesis by (auto simp: nbrs_of_def dict_get_def)
  next
    case False
    with 2(2-) have "set (nbrs_of (index_nbrs g (index @ [w]) ws) u) =
        set (neighbors g u) \<inter> set (after ws u)"
      by (intro 2(1)) auto
    with False show ?thesis by (simp add: nbrs_of_def dict_get_def)
  qed
qed

lemma nbrs_of_entry:
  "distinct (map fst nbrs) \<Longrightarrow> (u, ns) \<in> set nbrs \<Longrightarrow> nbrs_of nbrs u = ns"
  by (simp add: nbrs_of_def dict_get_def)

lemma chain_pairwise:
  "chain nbrs t \<Longrightarrow> x \<in> set t \<Longrightarrow> y \<in> set t \<Longrightarrow> x \<noteq> y \<Longrightarrow>
   y \<in> set (nbrs_of nbrs x) \<or> x \<in> set (nbrs_of nbrs y)"
  by (induction t) auto

lemma set_outputs:
  "set (outputs nbrs queue) =
     {b @ t | b c t. (b, c) \<in> set queue \<and> t \<in> set (oksubs nbrs c)}"
  by (induction queue) (auto simp: outputs_def)

lemma enumerate_iff:
  assumes wf: "ugraph_wf g"
  shows "l \<in> set (enumerate_all_cliques g) \<longleftrightarrow>
     l \<noteq> [] \<and> subseq l (map fst g) \<and>
     (\<forall>a\<in>set l. \<forall>b\<in>set l. a \<noteq> b \<longrightarrow> b \<in> set (neighbors g a))"
proof -
  let ?order = "map fst g"
  let ?nbrs = "index_nbrs g [] ?order"
  let ?queue = "map (\<lambda>(u, ns). ([u], sorted_by_index ?order ns)) ?nbrs"
  have d: "distinct ?order" using wf by (simp add: ugraph_wf_def)
  have sym: "\<And>u v. v \<in> set (neighbors g u) \<Longrightarrow> u \<in> set (neighbors g v)"
    and inn: "\<And>u v. v \<in> set (neighbors g u) \<Longrightarrow> v \<in> set ?order"
    using wf by (auto simp: ugraph_wf_def)
  have dk: "distinct (map fst ?nbrs)" using d by (simp add: index_nbrs_keys)
  have N: "set (nbrs_of ?nbrs u) = set (neighbors g u) \<inter> set (after ?order u)"
    if "u \<in> set ?order" for u
    using d that inn by (intro nbrs_of_index_nbrs) auto
  have cn: "sorted_by_index ?order (nbrs_of ?nbrs u) =
      filter (\<lambda>v. v \<in> set (nbrs_of ?nbrs u)) (after ?order u)" if "u \<in> set ?order" for u
    unfolding sorted_by_index_def using d N[OF that] by (intro filter_after) auto
  have mem: "l \<in> set (enumerate_all_cliques g) \<longleftrightarrow>
      (\<exists>u t. l = u # t \<and> u \<in> set ?order \<and>
          t \<in> set (oksubs ?nbrs (sorted_by_index ?order (nbrs_of ?nbrs u))))"
  proof -
    have e: "enumerate_all_cliques g = bfs ?nbrs ?queue"
      by (simp add: enumerate_all_cliques_def Let_def)
    have "set (bfs ?nbrs ?queue) = set (outputs ?nbrs ?queue)"
      by (rule mset_eq_setD[OF mset_bfs])
    with e have s: "set (enumerate_all_cliques g) = set (outputs ?nbrs ?queue)" by simp
    have a: "u \<in> set ?order \<and> nbrs_of ?nbrs u = ns" if "(u, ns) \<in> set ?nbrs" for u ns
    proof -
      from that have "fst (u, ns) \<in> fst ` set ?nbrs" by (rule imageI)
      then have "u \<in> set (map fst ?nbrs)" by simp
      then have "u \<in> set ?order" by (simp only: index_nbrs_keys)
      with nbrs_of_entry[OF dk that] show ?thesis by simp
    qed
    have b: "(u, nbrs_of ?nbrs u) \<in> set ?nbrs" if "u \<in> set ?order" for u
    proof -
      from that have "u \<in> set (map fst ?nbrs)" by (simp only: index_nbrs_keys)
      then obtain ns where ns: "(u, ns) \<in> set ?nbrs" by auto
      from nbrs_of_entry[OF dk ns] ns show ?thesis by simp
    qed
    show ?thesis
    proof
      assume "l \<in> set (enumerate_all_cliques g)"
      with s have "l \<in> set (outputs ?nbrs ?queue)" by simp
      then obtain u ns t where "(u, ns) \<in> set ?nbrs" "l = [u] @ t"
          "t \<in> set (oksubs ?nbrs (sorted_by_index ?order ns))"
        unfolding set_outputs by auto
      with a[of u ns] show "\<exists>u t. l = u # t \<and> u \<in> set ?order \<and>
          t \<in> set (oksubs ?nbrs (sorted_by_index ?order (nbrs_of ?nbrs u)))"
        by auto
    next
      assume "\<exists>u t. l = u # t \<and> u \<in> set ?order \<and>
          t \<in> set (oksubs ?nbrs (sorted_by_index ?order (nbrs_of ?nbrs u)))"
      then obtain u t where l: "l = u # t" and u: "u \<in> set ?order"
        and t: "t \<in> set (oksubs ?nbrs (sorted_by_index ?order (nbrs_of ?nbrs u)))"
        by blast
      from b[OF u] have "([u], sorted_by_index ?order (nbrs_of ?nbrs u)) \<in> set ?queue"
        by force
      with t have "[u] @ t \<in> set (outputs ?nbrs ?queue)"
        unfolding set_outputs by blast
      with s l show "l \<in> set (enumerate_all_cliques g)" by simp
    qed
  qed
  show ?thesis
  proof
    assume "l \<in> set (enumerate_all_cliques g)"
    with mem obtain u t where l: "l = u # t" and u: "u \<in> set ?order"
      and t: "t \<in> set (oksubs ?nbrs (sorted_by_index ?order (nbrs_of ?nbrs u)))"
      by blast
    from t have s: "subseq t (filter (\<lambda>v. v \<in> set (nbrs_of ?nbrs u)) (after ?order u))"
      and c: "chain ?nbrs t"
      by (simp_all add: oksubs_iff cn[OF u])
    have "subseq (filter (\<lambda>v. v \<in> set (nbrs_of ?nbrs u)) (after ?order u)) (after ?order u)"
      by simp
    with s have sa: "subseq t (after ?order u)" by (rule subseq_order.order_trans)
    then have "subseq (u # t) (u # after ?order u)" by simp
    from this cons_after_subseq[OF u] have so: "subseq l ?order"
      unfolding l by (rule subseq_order.order_trans)
    have tu: "set t \<subseteq> set (nbrs_of ?nbrs u)" using subseq_set[OF s] by auto
    have tin: "set t \<subseteq> set ?order" using subseq_set[OF sa] set_after[of ?order u] by auto
    have adj_ut: "\<And>b. b \<in> set t \<Longrightarrow> b \<in> set (neighbors g u)"
      using tu N[OF u] by auto
    have adj_tt: "b \<in> set (neighbors g a)" if "a \<in> set t" "b \<in> set t" "a \<noteq> b" for a b
    proof -
      from chain_pairwise[OF c that] consider "b \<in> set (nbrs_of ?nbrs a)" | "a \<in> set (nbrs_of ?nbrs b)"
        by blast
      then show ?thesis
      proof cases
        case 1
        with N[of a] that tin show ?thesis by auto
      next
        case 2
        with N[of b] that tin have "a \<in> set (neighbors g b)" by auto
        then show ?thesis by (rule sym)
      qed
    qed
    have "\<forall>a\<in>set l. \<forall>b\<in>set l. a \<noteq> b \<longrightarrow> b \<in> set (neighbors g a)"
      unfolding l using adj_ut adj_tt sym by auto
    with so l show "l \<noteq> [] \<and> subseq l ?order \<and>
        (\<forall>a\<in>set l. \<forall>b\<in>set l. a \<noteq> b \<longrightarrow> b \<in> set (neighbors g a))"
      by simp
  next
    assume a: "l \<noteq> [] \<and> subseq l ?order \<and>
        (\<forall>a\<in>set l. \<forall>b\<in>set l. a \<noteq> b \<longrightarrow> b \<in> set (neighbors g a))"
    then obtain u t where l: "l = u # t" by (cases l) auto
    from a have so: "subseq (u # t) ?order" and
      adj: "\<And>a b. a \<in> set (u # t) \<Longrightarrow> b \<in> set (u # t) \<Longrightarrow> a \<noteq> b \<Longrightarrow> b \<in> set (neighbors g a)"
      unfolding l by auto
    have dl: "distinct (u # t)" using subseq_distinct[OF so d] .
    have u: "u \<in> set ?order" using subseq_set[OF so] by auto
    have ch: "chain ?nbrs t'" if "subseq t' ?order" "set t' \<subseteq> set (u # t)" for t'
      using that
    proof (induction t')
      case Nil
      then show ?case by simp
    next
      case (Cons x t'')
      have dx: "distinct (x # t'')" using subseq_distinct[OF Cons.prems(1) d] .
      have x: "x \<in> set ?order" using subseq_set[OF Cons.prems(1)] by auto
      have sa: "subseq t'' (after ?order x)" using Cons.prems(1) by (rule subseq_after)
      have "set t'' \<subseteq> set (nbrs_of ?nbrs x)"
      proof
        fix y assume y: "y \<in> set t''"
        with dx have "x \<noteq> y" by auto
        with adj[of x y] Cons.prems(2) y have "y \<in> set (neighbors g x)" by auto
        moreover have "y \<in> set (after ?order x)" using subseq_set[OF sa] y by auto
        ultimately show "y \<in> set (nbrs_of ?nbrs x)" using N[OF x] by simp
      qed
      moreover have "chain ?nbrs t''"
      proof (rule Cons.IH)
        from Cons.prems(1) show "subseq t'' ?order" by (rule subseq_Cons')
        from Cons.prems(2) show "set t'' \<subseteq> set (u # t)" by auto
      qed
      ultimately show ?case by simp
    qed
    have st: "subseq t ?order" using so by (rule subseq_Cons')
    have c: "chain ?nbrs t" using ch[OF st] by auto
    have sa: "subseq t (after ?order u)" using so by (rule subseq_after)
    have "\<forall>y\<in>set t. y \<in> set (nbrs_of ?nbrs u)"
    proof
      fix y assume y: "y \<in> set t"
      with dl have "u \<noteq> y" by auto
      with adj[of u y] y have "y \<in> set (neighbors g u)" by auto
      moreover have "y \<in> set (after ?order u)" using subseq_set[OF sa] y by auto
      ultimately show "y \<in> set (nbrs_of ?nbrs u)" using N[OF u] by simp
    qed
    with sa have "subseq t (filter (\<lambda>v. v \<in> set (nbrs_of ?nbrs u)) (after ?order u))"
      by (rule subseq_into_filter)
    with c have "t \<in> set (oksubs ?nbrs (sorted_by_index ?order (nbrs_of ?nbrs u)))"
      by (simp add: oksubs_iff cn[OF u])
    with l u mem show "l \<in> set (enumerate_all_cliques g)" by blast
  qed
qed

lemma outputs_singleton_heads:
  "l \<in> set (outputs nbrs (map (\<lambda>(u, c). ([u], c)) xs)) \<Longrightarrow> \<exists>u t. l = u # t \<and> u \<in> fst ` set xs"
  unfolding set_outputs by force

lemma distinct_outputs:
  "distinct (map fst xs) \<Longrightarrow> \<forall>(u, c)\<in>set xs. distinct c \<Longrightarrow>
   distinct (outputs nbrs (map (\<lambda>(u, c). ([u], c)) xs))"
proof (induction xs)
  case Nil
  then show ?case by (simp add: outputs_def)
next
  case (Cons x xs)
  obtain u c where x: "x = (u, c)" by (cases x)
  have o: "outputs nbrs (map (\<lambda>(u, c). ([u], c)) (x # xs)) =
      map ((@) [u]) (oksubs nbrs c) @ outputs nbrs (map (\<lambda>(u, c). ([u], c)) xs)"
    by (simp add: x outputs_def)
  have d1: "distinct (map ((@) [u]) (oksubs nbrs c))"
    using Cons.prems(2) x by (auto simp: distinct_map distinct_oksubs intro: inj_onI)
  have d2: "distinct (outputs nbrs (map (\<lambda>(u, c). ([u], c)) xs))"
    using Cons by simp
  have "l \<notin> set (outputs nbrs (map (\<lambda>(u, c). ([u], c)) xs))"
    if "l \<in> set (map ((@) [u]) (oksubs nbrs c))" for l
  proof
    assume "l \<in> set (outputs nbrs (map (\<lambda>(u, c). ([u], c)) xs))"
    then obtain u' t where "l = u' # t" "u' \<in> fst ` set xs"
      using outputs_singleton_heads by blast
    moreover from that obtain t' where "l = u # t'" by auto
    ultimately have "u \<in> fst ` set xs" by simp
    with Cons.prems(1) x show False by simp
  qed
  then have "set (map ((@) [u]) (oksubs nbrs c)) \<inter>
      set (outputs nbrs (map (\<lambda>(u, c). ([u], c)) xs)) = {}"
    by blast
  with d1 d2 show ?case unfolding o by simp
qed

lemma distinct_enumerate:
  assumes "distinct (map fst g)"
  shows "distinct (enumerate_all_cliques g)"
proof -
  let ?order = "map fst g"
  let ?nbrs = "index_nbrs g [] ?order"
  let ?xs = "map (\<lambda>(u, ns). (u, sorted_by_index ?order ns)) ?nbrs"
  have q: "map (\<lambda>(u, ns). ([u], sorted_by_index ?order ns)) ?nbrs = map (\<lambda>(u, c). ([u], c)) ?xs"
    by (simp add: case_prod_beta)
  have "map fst ?xs = map fst ?nbrs" by (simp add: case_prod_beta)
  then have k: "distinct (map fst ?xs)" using assms by (simp only: index_nbrs_keys)
  have c: "\<forall>(u, c)\<in>set ?xs. distinct c"
    using assms by (auto simp: sorted_by_index_def)
  have "distinct (outputs ?nbrs (map (\<lambda>(u, c). ([u], c)) ?xs))"
    using k c by (rule distinct_outputs)
  moreover have "distinct (bfs ?nbrs (map (\<lambda>(u, c). ([u], c)) ?xs)) =
      distinct (outputs ?nbrs (map (\<lambda>(u, c). ([u], c)) ?xs))"
    by (rule mset_eq_imp_distinct_iff[OF mset_bfs])
  ultimately show ?thesis
    by (simp add: enumerate_all_cliques_def Let_def q)
qed

lemma subseq_filter_set:
  "subseq l order \<Longrightarrow> distinct order \<Longrightarrow> l = filter (\<lambda>x. x \<in> set l) order"
proof (induction rule: list_emb.induct)
  case (list_emb_Nil ys)
  then show ?case by simp
next
  case (list_emb_Cons xs ys y)
  then have "y \<notin> set xs" using subseq_set[of xs ys] by auto
  with list_emb_Cons show ?case by simp
next
  case (list_emb_Cons2 x y xs ys)
  then have xy: "x = y" and ny: "y \<notin> set ys" and IH: "xs = filter (\<lambda>x. x \<in> set xs) ys"
    by simp_all
  have "filter (\<lambda>z. z \<in> set (x # xs)) ys = filter (\<lambda>z. z \<in> set xs) ys"
    using ny xy by (intro filter_cong) auto
  with xy IH show ?case by simp
qed

lemma enumerate_cliques:
  assumes wf: "ugraph_wf g"
  shows "set ` set (enumerate_all_cliques g) =
           {S. S \<noteq> {} \<and> S \<subseteq> fst ` set g \<and>
               (\<forall>a\<in>S. \<forall>b\<in>S. a \<noteq> b \<longrightarrow> b \<in> set (neighbors g a))}"
    and "distinct (map set (enumerate_all_cliques g))"
proof -
  have d: "distinct (map fst g)" using wf by (simp add: ugraph_wf_def)
  show "set ` set (enumerate_all_cliques g) =
           {S. S \<noteq> {} \<and> S \<subseteq> fst ` set g \<and>
               (\<forall>a\<in>S. \<forall>b\<in>S. a \<noteq> b \<longrightarrow> b \<in> set (neighbors g a))}" (is "?L = ?R")
  proof
    show "?L \<subseteq> ?R"
    proof
      fix S assume "S \<in> ?L"
      then obtain l where l: "l \<in> set (enumerate_all_cliques g)" and S: "S = set l" by auto
      from l have "l \<noteq> []" "subseq l (map fst g)"
        "\<forall>a\<in>set l. \<forall>b\<in>set l. a \<noteq> b \<longrightarrow> b \<in> set (neighbors g a)"
        by (simp_all add: enumerate_iff[OF wf])
      with subseq_set[of l "map fst g"] S show "S \<in> ?R" by auto
    qed
    show "?R \<subseteq> ?L"
    proof
      fix S assume "S \<in> ?R"
      then have ne: "S \<noteq> {}" and sub: "S \<subseteq> set (map fst g)"
        and adj: "\<forall>a\<in>S. \<forall>b\<in>S. a \<noteq> b \<longrightarrow> b \<in> set (neighbors g a)"
        by auto
      let ?l = "filter (\<lambda>x. x \<in> S) (map fst g)"
      have sl: "set ?l = S" using sub by auto
      have "set ?l \<noteq> {}" using sl ne by simp
      then have "?l \<noteq> []" by (simp only: set_empty not_False_eq_True)
      moreover have "subseq ?l (map fst g)" by simp
      ultimately have "?l \<in> set (enumerate_all_cliques g)"
        using adj sl by (simp only: enumerate_iff[OF wf]) simp
      with sl show "S \<in> ?L" by (metis imageI)
    qed
  qed
  have "inj_on set (set (enumerate_all_cliques g))"
  proof (rule inj_onI)
    fix x y assume "x \<in> set (enumerate_all_cliques g)" "y \<in> set (enumerate_all_cliques g)"
      and e: "set x = set y"
    then have "subseq x (map fst g)" "subseq y (map fst g)"
      by (simp_all add: enumerate_iff[OF wf])
    from subseq_filter_set[OF this(1) d] subseq_filter_set[OF this(2) d] e
    show "x = y" by simp
  qed
  with distinct_enumerate[OF d] show "distinct (map set (enumerate_all_cliques g))"
    by (simp add: distinct_map)
qed

lemma unordered_und: "{a, b} \<in> unordered ps \<longleftrightarrow> (a, b) \<in> und (set ps)"
  by (auto simp: unordered_def und_def doubleton_eq_iff)

lemma Union_unordered: "\<Union>(unordered ps) = fst ` set ps \<union> snd ` set ps"
  by (auto simp: unordered_def) force+

lemma und_keys: "und (set es) = und (set ps) \<Longrightarrow> fst ` set es \<union> snd ` set es = fst ` set ps \<union> snd ` set ps"
proof -
  assume e: "und (set es) = und (set ps)"
  have "\<And>xs. fst ` set xs \<union> snd ` set xs = fst ` und (set xs)"
    by (auto simp: und_def) force+
  with e show ?thesis by simp
qed

lemma und_no_loop:
  "und (set es) = und (set ps) \<Longrightarrow> no_loop ps \<Longrightarrow> \<forall>(a, b)\<in>set es. a \<noteq> b"
proof -
  assume e: "und (set es) = und (set ps)" and n: "no_loop ps"
  have "(a, a) \<notin> set es" for a
  proof
    assume "(a, a) \<in> set es"
    then have "(a, a) \<in> und (set es)" by (simp add: und_def)
    with e have "(a, a) \<in> set ps" by (simp add: und_def)
    with n show False by (auto simp: no_loop_def list_all_iff)
  qed
  then show ?thesis by auto
qed

lemma neighbors_entry: "distinct (map fst g) \<Longrightarrow> (u, ns) \<in> set g \<Longrightarrow> neighbors g u = ns"
  by (simp add: neighbors_def dict_get_def)

lemma neighbors_in_entry: "v \<in> set (neighbors g u) \<Longrightarrow> (u, neighbors g u) \<in> set g"
  by (auto simp: neighbors_def dict_get_def split: option.splits dest: map_of_SomeD)

lemma graph_edge_set_neighbors:
  "distinct (map fst g) \<Longrightarrow> graph_edge_set g = {{u, v} | u v. v \<in> set (neighbors g u)}"
proof -
  assume d: "distinct (map fst g)"
  show ?thesis
  proof (intro set_eqI iffI)
    fix e assume "e \<in> graph_edge_set g"
    then obtain u ns v where "(u, ns) \<in> set g" "v \<in> set ns" "e = {u, v}"
      by (auto simp: graph_edge_set_def)
    with neighbors_entry[OF d this(1)] show "e \<in> {{u, v} | u v. v \<in> set (neighbors g u)}" by blast
  next
    fix e assume "e \<in> {{u, v} | u v. v \<in> set (neighbors g u)}"
    then obtain u v where v: "v \<in> set (neighbors g u)" and e: "e = {u, v}" by blast
    from neighbors_in_entry[OF v] v e show "e \<in> graph_edge_set g"
      by (force simp: graph_edge_set_def)
  qed
qed

lemma derived_graph:
  assumes e: "und (set es) = und (set ps)" and n: "no_loop ps"
  shows "\<exists>G. add_edges_from [] es = Inr G \<and> ugraph_wf G \<and> graph_ok G \<and>
             graph_edge_set G = unordered ps \<and> fst ` set G = \<Union>(unordered ps) \<and>
             (\<forall>a b. b \<in> set (neighbors G a) \<longleftrightarrow> {a, b} \<in> unordered ps)"
proof -
  have nil: "graph_ok []" "\<And>u. neighbors [] u = []"
    by (simp_all add: graph_ok_def neighbors_def dict_get_def)
  from add_edges_from_ok[OF und_no_loop[OF e n], of "[]"] obtain G where G:
    "add_edges_from [] es = Inr G"
    "\<forall>u. set (neighbors G u) = {v. (u, v) \<in> und (set es)}"
    "fst ` set G = fst ` set es \<union> snd ` set es"
    "graph_ok G"
    using nil by auto
  have nb: "\<And>a b. b \<in> set (neighbors G a) \<longleftrightarrow> {a, b} \<in> unordered ps"
    using G(2) e by (simp add: unordered_und)
  have keys: "fst ` set G = \<Union>(unordered ps)"
    using G(3) und_keys[OF e] by (simp add: Union_unordered)
  have ok: "graph_ok G" by (rule G(4))
  then have d: "distinct (map fst G)" by (simp add: graph_ok_def)
  have es: "graph_edge_set G = unordered ps"
  proof -
    have "graph_edge_set G = {{u, v} | u v. {u, v} \<in> unordered ps}"
      using graph_edge_set_neighbors[OF d] nb by simp
    also have "\<dots> = unordered ps" by (auto simp: unordered_def)
    finally show ?thesis .
  qed
  have wf: "ugraph_wf G"
    unfolding ugraph_wf_def
  proof (intro conjI allI impI)
    show "distinct (map fst G)" by (rule d)
  next
    fix u v assume "v \<in> set (neighbors G u)"
    then have uv: "{u, v} \<in> unordered ps" by (simp add: nb)
    then have "{v, u} \<in> unordered ps" by (simp add: insert_commute)
    then show "u \<in> set (neighbors G v)" by (simp add: nb)
    from uv show "v \<in> fst ` set G" unfolding keys by blast
  qed
  from G(1) wf ok es keys nb show ?thesis by blast
qed

lemma und_friend_pairs: "und (set (friend_edges (edges s) [])) = und (set (friend_pairs s))"
proof -
  have "set (friend_pairs s) = {(a, b). (a, b, ''FRIENDS_WITH'') \<in> set (edges s)}"
    by (auto simp: friend_pairs_def) force
  then show ?thesis by (simp add: und_friend_edges)
qed

lemma get_type_has_node: "has_node s n \<Longrightarrow> get_type s n = Inr (stored_type s n)"
  by (auto simp: get_type_def has_node_def stored_type_def)

lemma person_edges_ok:
  "\<forall>(a, b, rel)\<in>set es. has_node s a \<and> has_node s b \<Longrightarrow>
   \<exists>X. person_edges s es acc = Inr X \<and>
       und (set X) = und (set acc \<union> {(a, b). \<exists>rel. (a, b, rel) \<in> set es \<and>
          stored_type s a = Some ''Person'' \<and> stored_type s b = Some ''Person''})"
proof (induction s es acc rule: person_edges.induct)
  case (1 s acc)
  then show ?case by simp
next
  case (2 s n1 n2 rel es acc)
  let ?P = "\<lambda>es. {(a, b). \<exists>rel. (a, b, rel) \<in> set es \<and>
          stored_type s a = Some ''Person'' \<and> stored_type s b = Some ''Person''}"
  from 2(3) have h: "has_node s n1" "has_node s n2"
    and rest: "\<forall>(a, b, rel)\<in>set es. has_node s a \<and> has_node s b" by auto
  have g: "get_type s n1 = Inr (stored_type s n1)" "get_type s n2 = Inr (stored_type s n2)"
    using h by (simp_all add: get_type_has_node)
  show ?case
  proof (cases "stored_type s n1 = stored_type s n2 \<and> stored_type s n2 = Some ''Person''")
    case True
    from 2(1)[OF g(1) g(2) True rest] obtain X where
      X: "person_edges s es (set_add acc (n1, n2)) = Inr X"
        "und (set X) = und (set (set_add acc (n1, n2)) \<union> ?P es)"
      by blast
    have "und (set (set_add acc (n1, n2)) \<union> ?P es) = und (set (set_add acc (n1, n2))) \<union> und (?P es)"
      by (auto simp: und_def)
    also have "\<dots> = und (insert (n1, n2) (set acc)) \<union> und (?P es)"
      by (simp add: und_set_add)
    also have "\<dots> = und (set acc \<union> ?P ((n1, n2, rel) # es))"
      using True by (auto simp: und_def)
    finally have u: "und (set X) = und (set acc \<union> ?P ((n1, n2, rel) # es))"
      using X(2) by simp
    have "person_edges s ((n1, n2, rel) # es) acc = person_edges s es (set_add acc (n1, n2))"
      using True by (simp add: g)
    then have "person_edges s ((n1, n2, rel) # es) acc = Inr X" using X(1) by simp
    with u show ?thesis by (intro exI[of _ X] conjI)
  next
    case False
    from 2(2)[OF g(1) g(2) False rest] obtain X where
      X: "person_edges s es acc = Inr X" "und (set X) = und (set acc \<union> ?P es)"
      by blast
    have p: "?P ((n1, n2, rel) # es) = ?P es" using False by auto
    have "person_edges s ((n1, n2, rel) # es) acc = person_edges s es acc"
      by (simp only: person_edges.simps g sum.case False if_False)
    with X show ?thesis by (simp only: p) blast
  qed
qed

lemma und_person_pairs:
  assumes "store_wf s"
  shows "\<exists>X. person_edges s (edges s) [] = Inr X \<and> und (set X) = und (set (person_pairs s))"
proof -
  have w: "\<forall>(a, b, rel)\<in>set (edges s). has_node s a \<and> has_node s b"
    using assms by (simp add: store_wf_def list_all_iff)
  have "set (person_pairs s) = {(a, b). \<exists>rel. (a, b, rel) \<in> set (edges s) \<and>
          stored_type s a = Some ''Person'' \<and> stored_type s b = Some ''Person''}"
    by (auto simp: person_pairs_def) force
  with person_edges_ok[OF w, of "[]"] show ?thesis by simp
qed

lemma pow3: "Pow {a, b, c} - {{}} = {{a}, {b}, {c}, {a, b}, {b, c}, {a, c}, {a, b, c}}"
proof -
  have "Pow {a, b, c} = {{}, {a}, {b}, {c}, {a, b}, {b, c}, {a, c}, {a, b, c}}"
    unfolding Pow_insert Pow_empty by (simp add: image_insert insert_commute Un_insert_left)
  then show ?thesis by auto
qed

lemma tri_pairs:
  "x \<in> {a, b, c} \<Longrightarrow> y \<in> {a, b, c} \<Longrightarrow> x \<noteq> y \<Longrightarrow> {x, y} \<in> {{a, b}, {b, c}, {a, c}}"
  by (auto simp: doubleton_eq_iff)

lemma triangle_cliques:
  assumes d: "a \<noteq> b" "b \<noteq> c" "a \<noteq> c"
    and t: "unordered ps = {{a, b}, {b, c}, {a, c}}"
  shows "no_loop ps"
    and "cliques_of ps = {{a}, {b}, {c}, {a, b}, {b, c}, {a, c}, {a, b, c}}"
    and "card (cliques_of ps) = 7"
proof -
  show "no_loop ps"
    unfolding no_loop_def list_all_iff
  proof (intro ballI)
    fix x assume x: "x \<in> set ps"
    obtain u v where uv: "x = (u, v)" by (cases x)
    with x have "{u, v} \<in> unordered ps" by (force simp: unordered_def)
    then have "{u, v} \<in> {{a, b}, {b, c}, {a, c}}" by (simp only: t)
    with d have "u \<noteq> v" by (auto simp: doubleton_eq_iff)
    with uv show "case x of (a, b) \<Rightarrow> a \<noteq> b" by simp
  qed
  have U: "\<Union>(unordered ps) = {a, b, c}" unfolding t by auto
  have P: "cliques_of ps = Pow {a, b, c} - {{}}"
  proof (intro set_eqI iffI)
    fix S assume "S \<in> cliques_of ps"
    then show "S \<in> Pow {a, b, c} - {{}}" by (simp add: cliques_of_def U)
  next
    fix S assume "S \<in> Pow {a, b, c} - {{}}"
    then have ne: "S \<noteq> {}" and sub: "S \<subseteq> {a, b, c}" by simp_all
    have "\<forall>x\<in>S. \<forall>y\<in>S. x \<noteq> y \<longrightarrow> {x, y} \<in> unordered ps"
    proof (intro ballI impI)
      fix x y assume "x \<in> S" "y \<in> S" "x \<noteq> y"
      with sub have "x \<in> {a, b, c}" "y \<in> {a, b, c}" "x \<noteq> y" by blast+
      then show "{x, y} \<in> unordered ps" unfolding t by (rule tri_pairs)
    qed
    with ne sub show "S \<in> cliques_of ps" by (simp add: cliques_of_def U)
  qed
  show "cliques_of ps = {{a}, {b}, {c}, {a, b}, {b, c}, {a, c}, {a, b, c}}"
    by (simp only: P pow3)
  have "card (Pow {a, b, c}) = 2 ^ card {a, b, c}" by (rule card_Pow) simp
  also have "\<dots> = 8" using d by simp
  finally have "card (Pow {a, b, c} - {{}}) = 7" by (simp add: card_Diff_singleton)
  then show "card (cliques_of ps) = 7" by (simp only: P)
qed

lemma cliques_from_graph:
  assumes e: "und (set es) = und (set ps)" and n: "no_loop ps"
  shows "\<exists>G. add_edges_from [] es = Inr G \<and>
           set ` set (enumerate_all_cliques G) = cliques_of ps \<and>
           distinct (map set (enumerate_all_cliques G)) \<and>
           length (enumerate_all_cliques G) = card (cliques_of ps)"
proof -
  from derived_graph[OF e n] obtain G where G: "add_edges_from [] es = Inr G" "ugraph_wf G"
    "fst ` set G = \<Union>(unordered ps)"
    "\<forall>a b. b \<in> set (neighbors G a) \<longleftrightarrow> {a, b} \<in> unordered ps"
    by blast
  have s: "set ` set (enumerate_all_cliques G) = cliques_of ps"
    using enumerate_cliques(1)[OF G(2)] G(3,4) by (simp add: cliques_of_def)
  have dd: "distinct (map set (enumerate_all_cliques G))" by (rule enumerate_cliques(2)[OF G(2)])
  have "length (enumerate_all_cliques G) = length (map set (enumerate_all_cliques G))" by simp
  also have "\<dots> = card (set (map set (enumerate_all_cliques G)))"
    using dd by (simp only: distinct_card)
  also have "\<dots> = card (cliques_of ps)" using s by simp
  finally show ?thesis using G(1) s dd by blast
qed

lemma friend_cliques:
  assumes "no_loop (friend_pairs s)"
  shows "\<exists>cs. find_friend_cliques s = Inr cs \<and> set ` set cs = cliques_of (friend_pairs s) \<and>
           distinct (map set cs) \<and> length cs = card (cliques_of (friend_pairs s))"
  using cliques_from_graph[OF und_friend_pairs assms]
  by (auto simp: find_friend_cliques_def friend_graph_def)

lemma person_cliques:
  assumes w: "store_wf s" and n: "no_loop (person_pairs s)"
  shows "\<exists>cs. find_person_cliques s = Inr cs \<and> set ` set cs = cliques_of (person_pairs s) \<and>
           distinct (map set cs) \<and> length cs = card (cliques_of (person_pairs s))"
proof -
  from und_person_pairs[OF w] obtain X where X: "person_edges s (edges s) [] = Inr X"
    "und (set X) = und (set (person_pairs s))" by blast
  from cliques_from_graph[OF X(2) n] X(1) show ?thesis
    by (auto simp: find_person_cliques_def person_graph_def)
qed

lemmas clique_eval_defs = find_friend_cliques_def find_person_cliques_def friend_graph_def person_graph_def
  set_add_def same_frozenset_def graph_add_edge_def graph_add_node_def adj_add_def neighbors_def
  dict_get_def enumerate_all_cliques_def nbrs_of_def sorted_by_index_def get_type_def
  friend_pairs_def person_pairs_def no_loop_def store_wf_def has_node_def stored_type_def unordered_def

lemma store_wf_extend:
  assumes "store_wf s" and "edges s' = edges s @ E" and "\<And>n. has_node s' n = has_node s n"
    and "\<forall>(a, b, rel)\<in>set E. has_node s a \<and> has_node s b"
  shows "store_wf s'"
  using assms by (auto simp: store_wf_def list_all_iff)

lemma store_wf_empty: "store_wf empty_store"
  by (simp add: store_wf_def empty_store_def)

lemma has_node_add_node: "has_node s m \<Longrightarrow> has_node (add_node s n nd) m"
  by (auto simp: has_node_def add_node_def dict_get_dict_set split: option.splits)

lemma edges_add_node: "edges (add_node s n nd) = edges s"
  by (simp add: add_node_def split: option.splits)

lemma store_wf_add_node: "store_wf s \<Longrightarrow> store_wf (add_node s n nd)"
  by (auto simp: store_wf_def list_all_iff edges_add_node has_node_add_node)

lemma store_wf_add_nodes_from: "store_wf s \<Longrightarrow> store_wf (add_nodes_from s pe)"
  by (induction s pe rule: add_nodes_from.induct) (simp_all add: store_wf_add_node)

lemma store_wf_add_properties:
  "store_wf s \<Longrightarrow> store_wf (snd (add_properties_from_file properties fp s))"
  by (auto simp: add_properties_from_file_def store_wf_add_nodes_from
           split: option.splits list.splits sum.splits)

lemma store_wf_step: "store_wf s \<Longrightarrow> store_wf (snd (relationship_step s l))"
proof (cases "malformed l")
  case True
  assume "store_wf s"
  with True show ?thesis by (simp add: relationship_step_malformed)
next
  case False
  assume w: "store_wf s"
  from False show ?thesis
  proof (cases rule: not_malformed_cases)
    case blank
    with w show ?thesis by (simp add: relationship_step_blank)
  next
    case (valid rel id1 type1 id2 type2)
    show ?thesis
    proof (cases "has_node s id1 \<and> has_node s id2")
      case True
      then have h: "has_node s id1" "has_node s id2" by simp_all
      from relationship_step_ok[OF valid h] obtain s' where
        s': "relationship_step s l = (Returned, s')" "edges s' = edges s @ [(id1, id2, rel)]"
          "\<forall>n. has_node s' n = has_node s n" by blast
      have "store_wf s'"
        using w s'(2) by (rule store_wf_extend) (use s'(3) h in auto)
      with s'(1) show ?thesis by simp
    next
      case False
      from relationship_step_unknown[OF valid False] obtain e s' where
        s': "relationship_step s l = (Raised e, s')" "edges s' = edges s"
          "\<forall>n. has_node s' n = has_node s n" by blast
      have "store_wf s'"
        using w by (rule store_wf_extend[where E = "[]"]) (use s'(2,3) in auto)
      with s'(1) show ?thesis by simp
    qed
  qed
qed

lemma store_wf_loop: "store_wf s \<Longrightarrow> store_wf (snd (relationship_loop s ls))"
proof (induction ls arbitrary: s)
  case Nil
  then show ?case by simp
next
  case (Cons l ls)
  obtain r s' where st: "relationship_step s l = (r, s')" by (cases "relationship_step s l")
  with store_wf_step[OF Cons.prems, of l] have w: "store_wf s'" by simp
  show ?case
  proof (cases r)
    case Returned
    with st Cons.IH[OF w] show ?thesis by simp
  next
    case (Raised e)
    with st w show ?thesis by simp
  qed
qed

lemma store_wf_add_relationships:
  "store_wf s \<Longrightarrow> store_wf (snd (add_relationships_from_file relationships fp s))"
  by (auto simp: add_relationships_from_file_def store_wf_loop split: option.splits list.splits)

lemma processed_lines_cong:
  assumes "\<And>n. has_node s' n = has_node s n"
  shows "processed_lines s' ls = processed_lines s ls"
proof -
  have "\<And>l. endpoints_known s' [l] = endpoints_known s [l]"
    using assms by (rule endpoints_known_cong)
  then show ?thesis by (simp add: processed_lines_def)
qed

lemma relationship_loop_processed:
  "edges (snd (relationship_loop s ls)) = edges s @ declared_edges (processed_lines s ls) \<and>
   (\<forall>n. has_node (snd (relationship_loop s ls)) n = has_node s n) \<and>
   (fst (relationship_loop s ls) = Returned \<longleftrightarrow> processed_lines s ls = ls)"
proof (induction ls arbitrary: s)
  case Nil
  then show ?case by (simp add: processed_lines_def)
next
  case (Cons l ls)
  show ?case
  proof (cases "malformed l")
    case True
    then show ?thesis by (simp add: relationship_step_malformed processed_lines_def)
  next
    case False
    then show ?thesis
    proof (cases rule: not_malformed_cases)
      case blank
      have p: "processed_lines s (l # ls) = l # processed_lines s ls"
        using False blank
        by (simp add: processed_lines_def endpoints_known_def parse_relationship_line_Nil)
      from Cons[of s] blank show ?thesis
        by (simp add: p relationship_step_blank parse_relationship_line_Nil)
    next
      case (valid rel id1 type1 id2 type2)
      show ?thesis
      proof (cases "has_node s id1 \<and> has_node s id2")
        case True
        then have h: "has_node s id1" "has_node s id2" by simp_all
        from relationship_step_ok[OF valid h] obtain s1 where
          s1: "relationship_step s l = (Returned, s1)" "edges s1 = edges s @ [(id1, id2, rel)]"
            "\<forall>n. has_node s1 n = has_node s n" by blast
        have p: "processed_lines s (l # ls) = l # processed_lines s ls"
          using False valid h by (simp add: processed_lines_def endpoints_known_def)
        have c: "processed_lines s1 ls = processed_lines s ls"
          using s1(3) by (intro processed_lines_cong) simp
        from Cons[of s1] s1 valid show ?thesis by (simp add: p c)
      next
        case unk: False
        from relationship_step_unknown[OF valid unk] obtain e s1 where
          s1: "relationship_step s l = (Raised e, s1)" "edges s1 = edges s"
            "\<forall>n. has_node s1 n = has_node s n" by blast
        have p: "processed_lines s (l # ls) = []"
          using valid unk by (auto simp: processed_lines_def endpoints_known_def)
        from s1 show ?thesis by (simp add: p)
      qed
    qed
  qed
qed

lemma add_relationships_processed:
  "edges (snd (add_relationships_from_file relationships fp s)) =
     edges s @ declared_edges (processed_lines s (data_lines fp)) \<and>
   (\<forall>n. has_node (snd (add_relationships_from_file relationships fp s)) n = has_node s n) \<and>
   (fst (add_relationships_from_file relationships fp s) = Returned \<longrightarrow>
      processed_lines s (data_lines fp) = data_lines fp)"
proof (cases fp)
  case None
  then show ?thesis by (simp add: add_relationships_from_file_def data_lines_def processed_lines_def)
next
  case (Some lines)
  show ?thesis
  proof (cases lines)
    case Nil
    with Some show ?thesis
      by (simp add: add_relationships_from_file_def data_lines_def processed_lines_def)
  next
    case (Cons h ls)
    with Some relationship_loop_processed[of s ls] show ?thesis
      by (simp add: add_relationships_from_file_def data_lines_def)
  qed
qed

lemmas eval2 = eval_defs data_lines_def processed_lines_def

section \<open>Properties\<close>

text \<open>
  Claim C2, as amended. For a line that parses into five tokens and whose two endpoint IDs
  are already nodes of the store, the loop body returns, and so does the ingestion of a file
  made of a header and that line: the edge is appended, the set of nodes is the same, and
  each endpoint carries a \<^verbatim>\<open>Type\<close> afterwards: the one it had, else the declared one (for
  a line from a node to itself the first declared type is the one written).
\<close>

theorem relationship_line_endpoints_present:
  assumes "parse_relationship_line (strip l) = Inr (rel, id1, type1, id2, type2)"
    and "has_node s id1" and "has_node s id2"
  shows "\<exists>s'. relationship_step s l = (Returned, s') \<and>
           add_relationships_from_file relationships (Some [header, l]) s = (Returned, s') \<and>
           edges s' = edges s @ [(id1, id2, rel)] \<and>
           (\<forall>n. has_node s' n = has_node s n) \<and>
           stored_type s' id1 = Some (case stored_type s id1 of Some t \<Rightarrow> t | None \<Rightarrow> type1) \<and>
           stored_type s' id2 =
             Some (case stored_type s id2 of Some t \<Rightarrow> t
                   | None \<Rightarrow> if id2 = id1 then type1 else type2)"
proof -
  from relationship_step_ok[OF assms] obtain s' where
    s': "relationship_step s l = (Returned, s')"
      "edges s' = edges s @ [(id1, id2, rel)]" "\<forall>n. has_node s' n = has_node s n"
      "stored_type s' id1 = Some (case stored_type s id1 of Some t \<Rightarrow> t | None \<Rightarrow> type1)"
      "stored_type s' id2 = Some (case stored_type s id2 of Some t \<Rightarrow> t
                   | None \<Rightarrow> if id2 = id1 then type1 else type2)"
    by blast
  have "add_relationships_from_file relationships (Some [header, l]) s = (Returned, s')"
    using s'(1) by (simp add: add_relationships_from_file_def)
  with s' show ?thesis by blast
qed

text \<open>
  The second relationship file of the test suite, on a store where \<open>C\<close> and \<open>X\<close> are
  nodes.
\<close>

theorem relationship_line_endpoints_present_witness:
  "parse_relationship_line (strip ''RESEARCHES C Person X Field\<newline>'') =
     Inr (''RESEARCHES'', ''C'', ''Person'', ''X'', ''Field'') \<and>
   has_node \<lparr>nodes = [(''A'', [(''Name'', ''Ally'')]), (''C'', [(''Name'', ''Oscar''), (''Type'', ''Person'')]), (''X'', [(''Name'', ''NLP'')])],
            edges = [(''A'', ''C'', ''STUDIES_WITH'')]\<rparr> ''C'' \<and>
   has_node \<lparr>nodes = [(''A'', [(''Name'', ''Ally'')]), (''C'', [(''Name'', ''Oscar''), (''Type'', ''Person'')]), (''X'', [(''Name'', ''NLP'')])],
            edges = [(''A'', ''C'', ''STUDIES_WITH'')]\<rparr> ''X'' \<and>
   add_relationships_from_file ''relationships2.txt''
       (Some [''Relationship ID1 Type1 ID2 Type2\<newline>'', ''RESEARCHES C Person X Field\<newline>''])
       \<lparr>nodes = [(''A'', [(''Name'', ''Ally'')]), (''C'', [(''Name'', ''Oscar''), (''Type'', ''Person'')]), (''X'', [(''Name'', ''NLP'')])],
        edges = [(''A'', ''C'', ''STUDIES_WITH'')]\<rparr> =
     (Returned,
      \<lparr>nodes = [(''A'', [(''Name'', ''Ally'')]), (''C'', [(''Name'', ''Oscar''), (''Type'', ''Person'')]),
                (''X'', [(''Name'', ''NLP''), (''Type'', ''Field'')])],
       edges = [(''A'', ''C'', ''STUDIES_WITH''), (''C'', ''X'', ''RESEARCHES'')]\<rparr>)"
proof -
  let ?s = "\<lparr>nodes = [(''A'', [(''Name'', ''Ally'')]), (''C'', [(''Name'', ''Oscar''), (''Type'', ''Person'')]), (''X'', [(''Name'', ''NLP'')])],
            edges = [(''A'', ''C'', ''STUDIES_WITH'')]\<rparr>"
  have p: "parse_relationship_line (strip ''RESEARCHES C Person X Field\<newline>'') =
     Inr (''RESEARCHES'', ''C'', ''Person'', ''X'', ''Field'')"
    by (simp add: eval_defs)
  have h1: "has_node ?s ''C''" by (simp add: eval_defs)
  have h2: "has_node ?s ''X''" by (simp add: eval_defs)
  show ?thesis
    using p h1 h2
      relationship_line_endpoints_present[OF p h1 h2, of "''relationships2.txt''"
        "''Relationship ID1 Type1 ID2 Type2\<newline>''"]
    by (simp add: eval_defs)
qed

text \<open>
  Claim C2 as stated fails: on the empty store a valid line raises \<^verbatim>\<open>KeyError\<close> at the
  lookup of its first endpoint; no node is created and no edge is appended.
\<close>

theorem relationship_line_endpoints_absent:
  "parse_relationship_line (strip ''FRIENDS_WITH A Person B Person\<newline>'') =
     Inr (''FRIENDS_WITH'', ''A'', ''Person'', ''B'', ''Person'') \<and>
   add_relationships_from_file ''relationships.txt''
     (Some [''Relationship ID1 Type1 ID2 Type2\<newline>'', ''FRIENDS_WITH A Person B Person\<newline>''])
     empty_store = (Raised (KeyError ''A''), empty_store)"
  by (simp add: eval_defs)

text \<open>
  Claim C3. Ingesting a property file into the store that a first ingestion of the same file
  left gives the same outcome and the same store: every node's attribute dictionary, keys in
  the same order, and the edges. This holds for every file (also one that is missing, empty
  or has a short line: the call then raises before it touches the store) and every store.
\<close>

theorem property_ingestion_idempotent:
  "add_properties_from_file properties fp (snd (add_properties_from_file properties fp s)) =
   add_properties_from_file properties fp s"
proof -
  have "dict_ok []" by (simp add: dict_ok_def)
  then have "\<And>ls pe. parse_properties [] ls = Inr pe \<Longrightarrow> dict_ok pe"
    by (rule dict_ok_parse_properties)
  then show ?thesis
    by (auto simp: add_properties_from_file_def add_nodes_from_idem split: option.splits list.splits sum.splits)
qed

text \<open>
  Claim C4. A node whose \<^verbatim>\<open>Type\<close> is set keeps it through the processing of any line and
  through the ingestion of any relationship file, whatever the outcome of the call.
\<close>

theorem first_write_wins_type:
  "stored_type s n = Some t \<Longrightarrow>
     stored_type (snd (relationship_step s l)) n = Some t \<and>
     stored_type (snd (add_relationships_from_file relationships fp s)) n = Some t"
  by (auto simp: add_relationships_from_file_def stored_type_step stored_type_loop
           split: option.splits list.splits)

text \<open>
  \<open>A\<close> is a \<open>Person\<close>; a line declares it a \<open>Company\<close>; the edge is added and \<open>A\<close>
  is still a \<open>Person\<close>.
\<close>

theorem first_write_wins_type_witness:
  "stored_type \<lparr>nodes = [(''A'', [(''Type'', ''Person'')]), (''B'', [])], edges = []\<rparr> ''A'' = Some ''Person'' \<and>
   parse_relationship_line (strip ''WORKS_AT B Person A Company\<newline>'') =
     Inr (''WORKS_AT'', ''B'', ''Person'', ''A'', ''Company'') \<and>
   stored_type (snd (relationship_step
       \<lparr>nodes = [(''A'', [(''Type'', ''Person'')]), (''B'', [])], edges = []\<rparr>
       ''WORKS_AT B Person A Company\<newline>'')) ''A'' = Some ''Person'' \<and>
   stored_type (snd (add_relationships_from_file ''relationships.txt''
       (Some [''Relationship ID1 Type1 ID2 Type2\<newline>'', ''WORKS_AT B Person A Company\<newline>''])
       \<lparr>nodes = [(''A'', [(''Type'', ''Person'')]), (''B'', [])], edges = []\<rparr>)) ''A'' = Some ''Person'' \<and>
   edges (snd (add_relationships_from_file ''relationships.txt''
       (Some [''Relationship ID1 Type1 ID2 Type2\<newline>'', ''WORKS_AT B Person A Company\<newline>''])
       \<lparr>nodes = [(''A'', [(''Type'', ''Person'')]), (''B'', [])], edges = []\<rparr>)) = [(''B'', ''A'', ''WORKS_AT'')]"
proof -
  let ?s = "\<lparr>nodes = [(''A'', [(''Type'', ''Person'')]), (''B'', [])], edges = []\<rparr>"
  have h: "stored_type ?s ''A'' = Some ''Person''" by (simp add: eval_defs)
  have p: "parse_relationship_line (strip ''WORKS_AT B Person A Company\<newline>'') =
     Inr (''WORKS_AT'', ''B'', ''Person'', ''A'', ''Company'')"
    by (simp add: eval_defs)
  have e: "edges (snd (add_relationships_from_file ''relationships.txt''
       (Some [''Relationship ID1 Type1 ID2 Type2\<newline>'', ''WORKS_AT B Person A Company\<newline>'']) ?s))
       = [(''B'', ''A'', ''WORKS_AT'')]"
    by (simp add: eval_defs)
  show ?thesis
    using h p e first_write_wins_type[OF h, of "''WORKS_AT B Person A Company\<newline>''"
        "''relationships.txt''"
        "Some [''Relationship ID1 Type1 ID2 Type2\<newline>'', ''WORKS_AT B Person A Company\<newline>'']"]
    by simp
qed

text \<open>
  Claim C5, as amended. The first ingestion of a relationship file appends to the store the
  edges that its data lines declare, in order, up to the first line at which the call raises
  (all of them when it returns). A second ingestion of the same file has the outcome of the
  first and appends the same edges again, each of them, whether or not an equal edge is
  there already. So every ordered pair gains as many edges again as it gained the first time,
  and the edge count of a pair that had no edge before the first ingestion doubles.
\<close>

theorem second_ingestion_appends_again:
  "edges (snd (add_relationships_from_file relationships fp s)) =
     edges s @ declared_edges (processed_lines s (data_lines fp)) \<and>
   edges (snd (add_relationships_from_file relationships fp
            (snd (add_relationships_from_file relationships fp s)))) =
     edges s @ declared_edges (processed_lines s (data_lines fp))
             @ declared_edges (processed_lines s (data_lines fp)) \<and>
   fst (add_relationships_from_file relationships fp
            (snd (add_relationships_from_file relationships fp s))) =
     fst (add_relationships_from_file relationships fp s) \<and>
   (fst (add_relationships_from_file relationships fp s) = Returned \<longrightarrow>
      processed_lines s (data_lines fp) = data_lines fp) \<and>
   edge_count (snd (add_relationships_from_file relationships fp
            (snd (add_relationships_from_file relationships fp s)))) a b + edge_count s a b =
     2 * edge_count (snd (add_relationships_from_file relationships fp s)) a b \<and>
   (edge_count s a b = 0 \<longrightarrow>
      edge_count (snd (add_relationships_from_file relationships fp
            (snd (add_relationships_from_file relationships fp s)))) a b =
      2 * edge_count (snd (add_relationships_from_file relationships fp s)) a b)"
proof -
  let ?s1 = "snd (add_relationships_from_file relationships fp s)"
  let ?s2 = "snd (add_relationships_from_file relationships fp ?s1)"
  let ?E = "declared_edges (processed_lines s (data_lines fp))"
  have one: "edges ?s1 = edges s @ ?E" and hn: "\<And>n. has_node ?s1 n = has_node s n"
    and ret: "fst (add_relationships_from_file relationships fp s) = Returned \<longrightarrow>
      processed_lines s (data_lines fp) = data_lines fp"
    using add_relationships_processed[of relationships fp s] by simp_all
  have c: "processed_lines ?s1 (data_lines fp) = processed_lines s (data_lines fp)"
    using hn by (rule processed_lines_cong)
  have two: "edges ?s2 = edges s @ ?E @ ?E"
    using add_relationships_processed[of relationships fp ?s1] one c by simp
  have out: "fst (add_relationships_from_file relationships fp ?s1) =
      fst (add_relationships_from_file relationships fp s)"
  proof (cases fp)
    case None
    then show ?thesis by (simp add: add_relationships_from_file_def)
  next
    case (Some lines)
    show ?thesis
    proof (cases lines)
      case Nil
      with Some show ?thesis by (simp add: add_relationships_from_file_def)
    next
      case (Cons h ls)
      have "\<And>n. has_node (snd (relationship_loop s ls)) n = has_node s n"
        using relationship_loop_sim[of s s ls] by simp
      from relationship_loop_sim[OF this, of ls] Some Cons show ?thesis
        by (simp add: add_relationships_from_file_def)
    qed
  qed
  have cnt: "edge_count ?s2 a b + edge_count s a b = 2 * edge_count ?s1 a b"
    using edge_count_append[OF one, of a b] edge_count_append[of ?s2 s "?E @ ?E" a b] two by simp
  then have cnt0: "edge_count s a b = 0 \<longrightarrow> edge_count ?s2 a b = 2 * edge_count ?s1 a b"
    by simp
  from one two out ret cnt cnt0 show ?thesis by (intro conjI)
qed

text \<open>
  Three nodes without edges and a file whose three data lines declare two edges from \<open>A\<close>
  to \<open>B\<close> and one from \<open>B\<close> to \<open>C\<close>: three edges after the first ingestion, the same
  three again after the second, and four edges from \<open>A\<close> to \<open>B\<close>.
\<close>

theorem second_ingestion_appends_again_witness:
  "edge_count \<lparr>nodes = [(''A'', []), (''B'', []), (''C'', [])], edges = []\<rparr> ''A'' ''B'' = 0 \<and>
   add_relationships_from_file ''relationships.txt''
       (Some [''Relationship ID1 Type1 ID2 Type2\<newline>'', ''FRIENDS_WITH A Person B Person\<newline>'',
              ''STUDIES_WITH A Person B Person\<newline>'', ''\<newline>'', ''FRIENDS_WITH B Person C Person\<newline>''])
       \<lparr>nodes = [(''A'', []), (''B'', []), (''C'', [])], edges = []\<rparr> =
     (Returned,
      \<lparr>nodes = [(''A'', [(''Type'', ''Person'')]), (''B'', [(''Type'', ''Person'')]),
                (''C'', [(''Type'', ''Person'')])],
       edges = [(''A'', ''B'', ''FRIENDS_WITH''), (''A'', ''B'', ''STUDIES_WITH''),
                (''B'', ''C'', ''FRIENDS_WITH'')]\<rparr>) \<and>
   edges (snd (add_relationships_from_file ''relationships.txt''
       (Some [''Relationship ID1 Type1 ID2 Type2\<newline>'', ''FRIENDS_WITH A Person B Person\<newline>'',
              ''STUDIES_WITH A Person B Person\<newline>'', ''\<newline>'', ''FRIENDS_WITH B Person C Person\<newline>''])
       (snd (add_relationships_from_file ''relationships.txt''
       (Some [''Relationship ID1 Type1 ID2 Type2\<newline>'', ''FRIENDS_WITH A Person B Person\<newline>'',
              ''STUDIES_WITH A Person B Person\<newline>'', ''\<newline>'', ''FRIENDS_WITH B Person C Person\<newline>''])
       \<lparr>nodes = [(''A'', []), (''B'', []), (''C'', [])], edges = []\<rparr>)))) =
     [(''A'', ''B'', ''FRIENDS_WITH''), (''A'', ''B'', ''STUDIES_WITH''), (''B'', ''C'', ''FRIENDS_WITH''),
      (''A'', ''B'', ''FRIENDS_WITH''), (''A'', ''B'', ''STUDIES_WITH''), (''B'', ''C'', ''FRIENDS_WITH'')] \<and>
   edge_count (snd (add_relationships_from_file ''relationships.txt''
       (Some [''Relationship ID1 Type1 ID2 Type2\<newline>'', ''FRIENDS_WITH A Person B Person\<newline>'',
              ''STUDIES_WITH A Person B Person\<newline>'', ''\<newline>'', ''FRIENDS_WITH B Person C Person\<newline>''])
       (snd (add_relationships_from_file ''relationships.txt''
       (Some [''Relationship ID1 Type1 ID2 Type2\<newline>'', ''FRIENDS_WITH A Person B Person\<newline>'',
              ''STUDIES_WITH A Person B Person\<newline>'', ''\<newline>'', ''FRIENDS_WITH B Person C Person\<newline>''])
       \<lparr>nodes = [(''A'', []), (''B'', []), (''C'', [])], edges = []\<rparr>)))) ''A'' ''B'' = 4"
proof -
  let ?s = "\<lparr>nodes = [(''A'', []), (''B'', []), (''C'', [])], edges = []\<rparr>"
  let ?fp = "Some [''Relationship ID1 Type1 ID2 Type2\<newline>'', ''FRIENDS_WITH A Person B Person\<newline>'',
              ''STUDIES_WITH A Person B Person\<newline>'', ''\<newline>'', ''FRIENDS_WITH B Person C Person\<newline>'']"
  let ?s1 = "\<lparr>nodes = [(''A'', [(''Type'', ''Person'')]), (''B'', [(''Type'', ''Person'')]),
                (''C'', [(''Type'', ''Person'')])],
       edges = [(''A'', ''B'', ''FRIENDS_WITH''), (''A'', ''B'', ''STUDIES_WITH''),
                (''B'', ''C'', ''FRIENDS_WITH'')]\<rparr>"
  have z: "edge_count ?s ''A'' ''B'' = 0" by (simp add: eval_defs)
  have o: "add_relationships_from_file ''relationships.txt'' ?fp ?s = (Returned, ?s1)"
    by (simp add: eval_defs)
  have d: "declared_edges (processed_lines ?s (data_lines ?fp)) =
      [(''A'', ''B'', ''FRIENDS_WITH''), (''A'', ''B'', ''STUDIES_WITH''), (''B'', ''C'', ''FRIENDS_WITH'')]"
    by (simp add: eval2)
  let ?r1 = "add_relationships_from_file ''relationships.txt'' ?fp ?s"
  let ?r2 = "add_relationships_from_file ''relationships.txt'' ?fp (snd ?r1)"
  let ?E = "declared_edges (processed_lines ?s (data_lines ?fp))"
  note inst = second_ingestion_appends_again[of "''relationships.txt''" ?fp ?s "''A''" "''B''"]
  from inst have i2: "edges (snd ?r2) = edges ?s @ ?E @ ?E" by blast
  from inst have ic: "edge_count ?s ''A'' ''B'' = 0 \<longrightarrow>
      edge_count (snd ?r2) ''A'' ''B'' = 2 * edge_count (snd ?r1) ''A'' ''B''" by blast
  have e2: "edges (snd ?r2) =
     [(''A'', ''B'', ''FRIENDS_WITH''), (''A'', ''B'', ''STUDIES_WITH''), (''B'', ''C'', ''FRIENDS_WITH''),
      (''A'', ''B'', ''FRIENDS_WITH''), (''A'', ''B'', ''STUDIES_WITH''), (''B'', ''C'', ''FRIENDS_WITH'')]"
    unfolding i2 d by simp
  have c1: "edge_count (snd ?r1) ''A'' ''B'' = 2" unfolding o by (simp add: edge_count_def)
  from ic z have "edge_count (snd ?r2) ''A'' ''B'' = 2 * edge_count (snd ?r1) ''A'' ''B''" by blast
  then have c2: "edge_count (snd ?r2) ''A'' ''B'' = 4" unfolding c1 by simp
  from z o e2 c2 show ?thesis by (intro conjI)
qed

text \<open>
  Claim C5 as stated fails: on a store that has an edge from \<open>A\<close> to \<open>B\<close> already, a file
  that declares one such edge brings their number from 1 to 2 and then to 3, not to 4.
\<close>

theorem edge_count_not_doubled:
  "edge_count \<lparr>nodes = [(''A'', []), (''B'', [])], edges = [(''A'', ''B'', ''FRIENDS_WITH'')]\<rparr> ''A'' ''B'' = 1 \<and>
   edge_count (snd (add_relationships_from_file ''relationships.txt''
       (Some [''Relationship ID1 Type1 ID2 Type2\<newline>'', ''FRIENDS_WITH A Person B Person\<newline>''])
       \<lparr>nodes = [(''A'', []), (''B'', [])], edges = [(''A'', ''B'', ''FRIENDS_WITH'')]\<rparr>)) ''A'' ''B'' = 2 \<and>
   edge_count (snd (add_relationships_from_file ''relationships.txt''
       (Some [''Relationship ID1 Type1 ID2 Type2\<newline>'', ''FRIENDS_WITH A Person B Person\<newline>''])
       (snd (add_relationships_from_file ''relationships.txt''
       (Some [''Relationship ID1 Type1 ID2 Type2\<newline>'', ''FRIENDS_WITH A Person B Person\<newline>''])
       \<lparr>nodes = [(''A'', []), (''B'', [])], edges = [(''A'', ''B'', ''FRIENDS_WITH'')]\<rparr>)))) ''A'' ''B'' = 3"
  by (simp add: eval_defs)

text \<open>
  Claim C6, as amended. The ingestion raises \<^verbatim>\<open>InvalidRelationshipLine\<close> with message
  \<open>m\<close> if and only if some data line is malformed, every endpoint of the five-token lines
  before the first such line is a node of the store, and \<open>m\<close> names that line. The store
  then holds the edges of all the lines before it, and none for the malformed line.
\<close>

theorem invalid_relationship_line_iff:
  "(fst (add_relationships_from_file relationships (Some (header # ls)) s) =
        Raised (InvalidRelationshipLine m) \<longleftrightarrow>
    (\<exists>pre l post. ls = pre @ l # post \<and> malformed l \<and>
        m = ''Error processing relationship: '' @ strip l \<and>
        (\<forall>x\<in>set pre. \<not> malformed x) \<and> endpoints_known s pre)) \<and>
   (\<forall>pre l post. ls = pre @ l # post \<and> malformed l \<and>
        (\<forall>x\<in>set pre. \<not> malformed x) \<and> endpoints_known s pre \<longrightarrow>
      (\<exists>s'. add_relationships_from_file relationships (Some (header # ls)) s =
              (Raised (InvalidRelationshipLine (''Error processing relationship: '' @ strip l)), s') \<and>
            edges s' = edges s @ declared_edges pre \<and>
            (\<forall>n. has_node s' n = has_node s n)))"
proof -
  have fwd: "\<exists>s'. relationship_loop s ls =
              (Raised (InvalidRelationshipLine (''Error processing relationship: '' @ strip l)), s') \<and>
            edges s' = edges s @ declared_edges pre \<and> (\<forall>n. has_node s' n = has_node s n)"
    if "ls = pre @ l # post" "malformed l" "\<forall>x\<in>set pre. \<not> malformed x" "endpoints_known s pre"
    for pre l post
  proof -
    from relationship_loop_prefix[OF that(3,4), of "l # post"] obtain s' where
      "relationship_loop s (pre @ l # post) = relationship_loop s' (l # post)"
      "edges s' = edges s @ declared_edges pre" "\<forall>n. has_node s' n = has_node s n"
      by blast
    with that(1,2) show ?thesis by (simp add: relationship_step_malformed)
  qed
  have "fst (relationship_loop s ls) = Raised (InvalidRelationshipLine m) \<longleftrightarrow>
    (\<exists>pre l post. ls = pre @ l # post \<and> malformed l \<and>
        m = ''Error processing relationship: '' @ strip l \<and>
        (\<forall>x\<in>set pre. \<not> malformed x) \<and> endpoints_known s pre)"
  proof
    assume "fst (relationship_loop s ls) = Raised (InvalidRelationshipLine m)"
    then show "\<exists>pre l post. ls = pre @ l # post \<and> malformed l \<and>
        m = ''Error processing relationship: '' @ strip l \<and>
        (\<forall>x\<in>set pre. \<not> malformed x) \<and> endpoints_known s pre"
      by (rule relationship_loop_invalid_only_if)
  next
    assume "\<exists>pre l post. ls = pre @ l # post \<and> malformed l \<and>
        m = ''Error processing relationship: '' @ strip l \<and>
        (\<forall>x\<in>set pre. \<not> malformed x) \<and> endpoints_known s pre"
    then obtain pre l post where *: "ls = pre @ l # post" "malformed l"
        "m = ''Error processing relationship: '' @ strip l"
        "\<forall>x\<in>set pre. \<not> malformed x" "endpoints_known s pre"
      by blast
    from fwd[OF *(1,2,4,5)] *(3) show "fst (relationship_loop s ls) = Raised (InvalidRelationshipLine m)"
      by auto
  qed
  with fwd show ?thesis
    by (simp add: add_relationships_from_file_def)
qed

theorem invalid_relationship_line_iff_witness:
  "malformed ''FRIENDS_WITH A Person B\<newline>'' \<and>
   \<not> malformed ''STUDIES_WITH A Person B Person\<newline>'' \<and> \<not> malformed ''\<newline>'' \<and>
   endpoints_known \<lparr>nodes = [(''A'', []), (''B'', [])], edges = []\<rparr>
     [''STUDIES_WITH A Person B Person\<newline>'', ''\<newline>''] \<and>
   add_relationships_from_file ''relationships.txt''
     (Some [''Relationship ID1 Type1 ID2 Type2\<newline>'', ''STUDIES_WITH A Person B Person\<newline>'', ''\<newline>'',
            ''FRIENDS_WITH A Person B\<newline>'', ''FRIENDS_WITH B Person A Person\<newline>''])
     \<lparr>nodes = [(''A'', []), (''B'', [])], edges = []\<rparr> =
   (Raised (InvalidRelationshipLine ''Error processing relationship: FRIENDS_WITH A Person B''),
    \<lparr>nodes = [(''A'', [(''Type'', ''Person'')]), (''B'', [(''Type'', ''Person'')])],
     edges = [(''A'', ''B'', ''STUDIES_WITH'')]\<rparr>)"
proof -
  let ?s = "\<lparr>nodes = [(''A'', []), (''B'', [])], edges = []\<rparr>"
  let ?pre = "[''STUDIES_WITH A Person B Person\<newline>'', ''\<newline>'']"
  let ?l = "''FRIENDS_WITH A Person B\<newline>''"
  let ?post = "[''FRIENDS_WITH B Person A Person\<newline>'']"
  have a: "malformed ?l" by (simp add: eval_defs)
  have b: "\<forall>x\<in>set ?pre. \<not> malformed x" by (simp add: eval_defs)
  have c: "endpoints_known ?s ?pre" by (simp add: eval_defs)
  have d: "?pre @ ?l # ?post = ?pre @ ?l # ?post \<and> malformed ?l \<and>
        (\<forall>x\<in>set ?pre. \<not> malformed x) \<and> endpoints_known ?s ?pre"
    using a b c by blast
  from invalid_relationship_line_iff[of "''relationships.txt''" "''Relationship ID1 Type1 ID2 Type2\<newline>''"
      "?pre @ ?l # ?post" ?s "''Error processing relationship: FRIENDS_WITH A Person B''"]
  have "\<forall>pre l post. ?pre @ ?l # ?post = pre @ l # post \<and> malformed l \<and>
        (\<forall>x\<in>set pre. \<not> malformed x) \<and> endpoints_known ?s pre \<longrightarrow>
      (\<exists>s'. add_relationships_from_file ''relationships.txt''
               (Some (''Relationship ID1 Type1 ID2 Type2\<newline>'' # ?pre @ ?l # ?post)) ?s =
              (Raised (InvalidRelationshipLine (''Error processing relationship: '' @ strip l)), s') \<and>
            edges s' = edges ?s @ declared_edges pre \<and>
            (\<forall>n. has_node s' n = has_node ?s n))"
    by (rule conjunct2)
  with d have "\<exists>s'. add_relationships_from_file ''relationships.txt''
               (Some (''Relationship ID1 Type1 ID2 Type2\<newline>'' # ?pre @ ?l # ?post)) ?s =
              (Raised (InvalidRelationshipLine (''Error processing relationship: '' @ strip ?l)), s') \<and>
            edges s' = edges ?s @ declared_edges ?pre \<and>
            (\<forall>n. has_node s' n = has_node ?s n)"
    by blast
  then show ?thesis using a b c by (simp add: eval_defs)
qed

text \<open>
  Claim C6 as stated fails: a file with a malformed line does not raise
  \<^verbatim>\<open>InvalidRelationshipLine\<close> when an earlier line names an ID that is not a node; the
  call stops there with \<^verbatim>\<open>KeyError\<close>.
\<close>

theorem invalid_line_masked_by_KeyError:
  "malformed ''FRIENDS_WITH A Person\<newline>'' \<and>
   add_relationships_from_file ''relationships.txt''
     (Some [''Relationship ID1 Type1 ID2 Type2\<newline>'', ''FRIENDS_WITH A Person B Person\<newline>'',
            ''FRIENDS_WITH A Person\<newline>''])
     empty_store = (Raised (KeyError ''A''), empty_store)"
  by (simp add: eval_defs)

text \<open>
  Claim C7. With a path that does not exist, both ingestion methods raise
  \<^verbatim>\<open>FileNotFoundError\<close> and leave the store as it was.
\<close>

theorem missing_source_store_unchanged:
  "add_properties_from_file properties None s =
       (Raised (FileNotFoundError (''Properties file '' @ properties @ '' not found.'')), s) \<and>
   add_relationships_from_file relationships None s =
       (Raised (FileNotFoundError (''Relationship file '' @ relationships @ '' not found.'')), s)"
  by (simp add: add_properties_from_file_def add_relationships_from_file_def)

text \<open>
  Claim C9. A property file with a data line that is not blank and has fewer than two tokens
  makes the ingestion raise \<^verbatim>\<open>IndexError\<close>, whatever the other lines are, and the store
  is untouched; the witness below is such a file.
\<close>

theorem short_property_line_IndexError:
  "l \<in> set ls \<Longrightarrow> strip l \<noteq> [] \<Longrightarrow> length (split_ws (strip l)) < 2 \<Longrightarrow>
   add_properties_from_file properties (Some (header # ls)) s = (Raised IndexError, s)"
  by (simp add: add_properties_from_file_def parse_properties_short)

theorem short_property_line_IndexError_witness:
  "''Q\<newline>'' \<in> set [''A Name Ally\<newline>'', ''Q\<newline>'', ''C Name Oscar\<newline>''] \<and>
   strip ''Q\<newline>'' \<noteq> [] \<and> length (split_ws (strip ''Q\<newline>'')) < 2 \<and>
   add_properties_from_file ''properties.txt''
     (Some [''ID Property Value\<newline>'', ''A Name Ally\<newline>'', ''Q\<newline>'', ''C Name Oscar\<newline>''])
     empty_store = (Raised IndexError, empty_store)"
proof -
  have m: "''Q\<newline>'' \<in> set [''A Name Ally\<newline>'', ''Q\<newline>'', ''C Name Oscar\<newline>'']" by simp
  have n: "strip ''Q\<newline>'' \<noteq> []" by (simp add: eval_defs)
  have k: "length (split_ws (strip ''Q\<newline>'')) < 2" by (simp add: eval_defs)
  show ?thesis
    using m n k short_property_line_IndexError[OF m n k, of "''properties.txt''"
        "''ID Property Value\<newline>''" empty_store]
    by simp
qed

text \<open>
  Claim C10. On a file without lines both ingestion methods raise \<^verbatim>\<open>StopIteration\<close> and
  leave the store as it was; on a file with a header line only they return and leave the
  store as it was.
\<close>

theorem empty_file_StopIteration:
  "add_properties_from_file properties (Some []) s = (Raised StopIteration, s) \<and>
   add_relationships_from_file relationships (Some []) s = (Raised StopIteration, s) \<and>
   add_properties_from_file properties (Some [header]) s = (Returned, s) \<and>
   add_relationships_from_file relationships (Some [header]) s = (Returned, s)"
  by (simp add: add_properties_from_file_def add_relationships_from_file_def)

text \<open>
  Claim C1: clique enumeration returns every non-empty pairwise connected set of nodes of the
  derived graph. The code does not on \<open>loop_store\<close>, the store that the two ingestion
  methods build from a property line for \<open>A\<close> and the relationship line
  \<^verbatim>\<open>FRIENDS_WITH A Person A Person\<close>. Its one edge passes both filters, so the derived
  graph has the node \<open>A\<close> and the clique \<open>{A}\<close> is to be returned; but the frozenset of
  the edge has one element, \<^verbatim>\<open>add_edges_from\<close> raises \<^verbatim>\<open>NetworkXError\<close>, and both queries
  raise instead of returning.
\<close>

theorem self_loop_breaks_enumeration:
  "snd (add_relationships_from_file ''relationships.txt''
         (Some [''Relationship ID1 Type1 ID2 Type2\<newline>'', ''FRIENDS_WITH A Person A Person\<newline>''])
         (snd (add_properties_from_file ''properties.txt''
                 (Some [''ID Property Value\<newline>'', ''A Name Frank\<newline>'']) empty_store))) = loop_store \<and>
   unordered (friend_pairs loop_store) = {{''A''}} \<and>
   unordered (person_pairs loop_store) = {{''A''}} \<and>
   find_friend_cliques loop_store = Inl NetworkXError \<and>
   find_person_cliques loop_store = Inl NetworkXError"
  by (simp add: loop_store_def clique_eval_defs eval_defs)

text \<open>
  On every other store the queries do return all cliques. If no edge that passes the filter
  joins a node to itself (and, for the person filter, the edges of the store join nodes), the
  query returns, and the sets of nodes it returns are exactly the non-empty pairwise connected
  sets of nodes of the derived graph, each returned once. When the derived graph is a
  triangle on \<open>a\<close>, \<open>b\<close>, \<open>c\<close> the query returns seven lists: the three singletons, the
  three pairs and the triple.
\<close>

theorem all_cliques_enumerated:
  "(no_loop (friend_pairs s) \<longrightarrow>
      (\<exists>cs. find_friend_cliques s = Inr cs \<and> set ` set cs = cliques_of (friend_pairs s) \<and>
            distinct (map set cs))) \<and>
   (store_wf s \<and> no_loop (person_pairs s) \<longrightarrow>
      (\<exists>cs. find_person_cliques s = Inr cs \<and> set ` set cs = cliques_of (person_pairs s) \<and>
            distinct (map set cs))) \<and>
   (a \<noteq> b \<and> b \<noteq> c \<and> a \<noteq> c \<and> unordered (friend_pairs s) = {{a, b}, {b, c}, {a, c}} \<longrightarrow>
      (\<exists>cs. find_friend_cliques s = Inr cs \<and> length cs = 7 \<and>
            set ` set cs = {{a}, {b}, {c}, {a, b}, {b, c}, {a, c}, {a, b, c}})) \<and>
   (store_wf s \<and> a \<noteq> b \<and> b \<noteq> c \<and> a \<noteq> c \<and>
    unordered (person_pairs s) = {{a, b}, {b, c}, {a, c}} \<longrightarrow>
      (\<exists>cs. find_person_cliques s = Inr cs \<and> length cs = 7 \<and>
            set ` set cs = {{a}, {b}, {c}, {a, b}, {b, c}, {a, c}, {a, b, c}}))"
proof (intro conjI impI)
  assume "no_loop (friend_pairs s)"
  from friend_cliques[OF this]
  show "\<exists>cs. find_friend_cliques s = Inr cs \<and> set ` set cs = cliques_of (friend_pairs s) \<and>
            distinct (map set cs)" by blast
next
  assume "store_wf s \<and> no_loop (person_pairs s)"
  then have "store_wf s" "no_loop (person_pairs s)" by simp_all
  from person_cliques[OF this]
  show "\<exists>cs. find_person_cliques s = Inr cs \<and> set ` set cs = cliques_of (person_pairs s) \<and>
            distinct (map set cs)" by blast
next
  assume "a \<noteq> b \<and> b \<noteq> c \<and> a \<noteq> c \<and> unordered (friend_pairs s) = {{a, b}, {b, c}, {a, c}}"
  then have h: "a \<noteq> b" "b \<noteq> c" "a \<noteq> c" "unordered (friend_pairs s) = {{a, b}, {b, c}, {a, c}}"
    by simp_all
  from friend_cliques[OF triangle_cliques(1)[OF h]] obtain cs where
    cs: "find_friend_cliques s = Inr cs" "set ` set cs = cliques_of (friend_pairs s)"
    "length cs = card (cliques_of (friend_pairs s))" by blast
  have "length cs = 7" by (simp only: cs(3) triangle_cliques(3)[OF h])
  moreover have "set ` set cs = {{a}, {b}, {c}, {a, b}, {b, c}, {a, c}, {a, b, c}}"
    by (simp only: cs(2) triangle_cliques(2)[OF h])
  ultimately have "find_friend_cliques s = Inr cs \<and> length cs = 7 \<and>
            set ` set cs = {{a}, {b}, {c}, {a, b}, {b, c}, {a, c}, {a, b, c}}"
    using cs(1) by blast
  then show "\<exists>cs. find_friend_cliques s = Inr cs \<and> length cs = 7 \<and>
            set ` set cs = {{a}, {b}, {c}, {a, b}, {b, c}, {a, c}, {a, b, c}}"
    by (rule exI)
next
  assume "store_wf s \<and> a \<noteq> b \<and> b \<noteq> c \<and> a \<noteq> c \<and>
    unordered (person_pairs s) = {{a, b}, {b, c}, {a, c}}"
  then have w: "store_wf s" and
    h: "a \<noteq> b" "b \<noteq> c" "a \<noteq> c" "unordered (person_pairs s) = {{a, b}, {b, c}, {a, c}}"
    by simp_all
  from person_cliques[OF w triangle_cliques(1)[OF h]] obtain cs where
    cs: "find_person_cliques s = Inr cs" "set ` set cs = cliques_of (person_pairs s)"
    "length cs = card (cliques_of (person_pairs s))" by blast
  have "length cs = 7" by (simp only: cs(3) triangle_cliques(3)[OF h])
  moreover have "set ` set cs = {{a}, {b}, {c}, {a, b}, {b, c}, {a, c}, {a, b, c}}"
    by (simp only: cs(2) triangle_cliques(2)[OF h])
  ultimately have "find_person_cliques s = Inr cs \<and> length cs = 7 \<and>
            set ` set cs = {{a}, {b}, {c}, {a, b}, {b, c}, {a, c}, {a, b, c}}"
    using cs(1) by blast
  then show "\<exists>cs. find_person_cliques s = Inr cs \<and> length cs = 7 \<and>
            set ` set cs = {{a}, {b}, {c}, {a, b}, {b, c}, {a, c}, {a, b, c}}"
    by (rule exI)
qed

text \<open>
  The store of the test suite: both queries yield the seven cliques, by size.
\<close>

theorem all_cliques_enumerated_witness:
  "no_loop (friend_pairs triangle_store) \<and> store_wf triangle_store \<and>
   no_loop (person_pairs triangle_store) \<and>
   ''A'' \<noteq> ''B'' \<and> ''B'' \<noteq> ''C'' \<and> ''A'' \<noteq> ''C'' \<and>
   unordered (friend_pairs triangle_store) = {{''A'', ''B''}, {''B'', ''C''}, {''A'', ''C''}} \<and>
   unordered (person_pairs triangle_store) = {{''A'', ''B''}, {''B'', ''C''}, {''A'', ''C''}} \<and>
   find_friend_cliques triangle_store =
     Inr [[''A''], [''C''], [''B''], [''A'', ''C''], [''A'', ''B''], [''C'', ''B''], [''A'', ''C'', ''B'']] \<and>
   find_person_cliques triangle_store =
     Inr [[''A''], [''C''], [''B''], [''A'', ''C''], [''A'', ''B''], [''C'', ''B''], [''A'', ''C'', ''B'']] \<and>
   set ` set [[''A''], [''C''], [''B''], [''A'', ''C''], [''A'', ''B''], [''C'', ''B''], [''A'', ''C'', ''B'']] =
     {{''A''}, {''B''}, {''C''}, {''A'', ''B''}, {''B'', ''C''}, {''A'', ''C''}, {''A'', ''B'', ''C''}} \<and>
   set ` set [[''A''], [''C''], [''B''], [''A'', ''C''], [''A'', ''B''], [''C'', ''B''], [''A'', ''C'', ''B'']] =
     cliques_of (friend_pairs triangle_store)"
proof -
  let ?L = "[[''A''], [''C''], [''B''], [''A'', ''C''], [''A'', ''B''], [''C'', ''B''], [''A'', ''C'', ''B'']]"
  have h1: "no_loop (friend_pairs triangle_store)" by (simp add: triangle_store_def clique_eval_defs)
  have h2: "store_wf triangle_store" by (simp add: triangle_store_def clique_eval_defs)
  have h3: "no_loop (person_pairs triangle_store)" by (simp add: triangle_store_def clique_eval_defs)
  have d: "''A'' \<noteq> ''B'' \<and> ''B'' \<noteq> ''C'' \<and> ''A'' \<noteq> ''C''" by simp
  have u1: "unordered (friend_pairs triangle_store) = {{''A'', ''B''}, {''B'', ''C''}, {''A'', ''C''}}"
    by (simp add: triangle_store_def clique_eval_defs insert_commute)
  have u2: "unordered (person_pairs triangle_store) = {{''A'', ''B''}, {''B'', ''C''}, {''A'', ''C''}}"
    by (simp add: triangle_store_def clique_eval_defs insert_commute)
  have f: "find_friend_cliques triangle_store = Inr ?L"
    by (simp add: triangle_store_def clique_eval_defs)
  have p: "find_person_cliques triangle_store = Inr ?L"
    by (simp add: triangle_store_def clique_eval_defs)
  note inst = all_cliques_enumerated[of triangle_store "''A''" "''B''" "''C''"]
  from inst h1 f have a: "set ` set ?L = cliques_of (friend_pairs triangle_store)" by auto
  from inst d u1 f have b: "set ` set ?L =
      {{''A''}, {''B''}, {''C''}, {''A'', ''B''}, {''B'', ''C''}, {''A'', ''C''}, {''A'', ''B'', ''C''}}"
    by auto
  from h1 h2 h3 d u1 u2 f p a b show ?thesis by (intro conjI) simp_all
qed

text \<open>
  Claim C8: the derived graph has as edges exactly the unordered pairs of the edges that pass
  the filter. The code does not build it on \<open>loop_store\<close>: the edge from \<open>A\<close> to \<open>A\<close>
  passes both filters, its frozenset has one element, and \<^verbatim>\<open>add_edges_from\<close> raises
  \<^verbatim>\<open>NetworkXError\<close> for the friend graph and for the person graph.
\<close>

theorem self_loop_breaks_derived_graph:
  "snd (add_relationships_from_file ''relationships.txt''
         (Some [''Relationship ID1 Type1 ID2 Type2\<newline>'', ''FRIENDS_WITH A Person A Person\<newline>''])
         (snd (add_properties_from_file ''properties.txt''
                 (Some [''ID Property Value\<newline>'', ''A Name Frank\<newline>'']) empty_store))) = loop_store \<and>
   friend_graph loop_store = Inl NetworkXError \<and>
   person_graph loop_store = Inl NetworkXError"
  by (simp add: loop_store_def clique_eval_defs eval_defs)

text \<open>
  On every other store the derived graph is as described. If no edge that passes the filter
  joins a node to itself (and, for the person filter, the edges of the store join nodes), the
  graph is built and its edges are exactly the unordered pairs of the edges that pass the
  filter; its nodes are the endpoints of these pairs; no node or neighbour is recorded twice,
  so that parallel and opposite edges give one undirected edge.
\<close>

theorem derived_graph_edge_set:
  "(no_loop (friend_pairs s) \<longrightarrow>
      (\<exists>G. friend_graph s = Inr G \<and> graph_edge_set G = unordered (friend_pairs s) \<and>
           fst ` set G = \<Union>(unordered (friend_pairs s)) \<and> graph_ok G)) \<and>
   (store_wf s \<and> no_loop (person_pairs s) \<longrightarrow>
      (\<exists>G. person_graph s = Inr G \<and> graph_edge_set G = unordered (person_pairs s) \<and>
           fst ` set G = \<Union>(unordered (person_pairs s)) \<and> graph_ok G))"
proof (intro conjI impI)
  assume "no_loop (friend_pairs s)"
  from derived_graph[OF und_friend_pairs this]
  show "\<exists>G. friend_graph s = Inr G \<and> graph_edge_set G = unordered (friend_pairs s) \<and>
           fst ` set G = \<Union>(unordered (friend_pairs s)) \<and> graph_ok G"
    unfolding friend_graph_def by blast
next
  assume "store_wf s \<and> no_loop (person_pairs s)"
  then have w: "store_wf s" and n: "no_loop (person_pairs s)" by simp_all
  from und_person_pairs[OF w] obtain X where X: "person_edges s (edges s) [] = Inr X"
    "und (set X) = und (set (person_pairs s))" by blast
  from derived_graph[OF X(2) n] X(1)
  show "\<exists>G. person_graph s = Inr G \<and> graph_edge_set G = unordered (person_pairs s) \<and>
           fst ` set G = \<Union>(unordered (person_pairs s)) \<and> graph_ok G"
    unfolding person_graph_def by auto
qed

text \<open>
  In \<open>mixed_store\<close> three \<^verbatim>\<open>FRIENDS_WITH\<close> edges between \<open>A\<close> and \<open>C\<close> give the one
  pair \<open>{A, C}\<close> of the friend graph, and the edges with other labels give it nothing; the
  person graph has the three pairs among \<open>A\<close>, \<open>B\<close>, \<open>C\<close> and nothing for the edge to
  the field \<open>X\<close>.
\<close>

theorem derived_graph_edge_set_witness:
  "no_loop (friend_pairs mixed_store) \<and> store_wf mixed_store \<and> no_loop (person_pairs mixed_store) \<and>
   friend_graph mixed_store = Inr [(''A'', [''C'']), (''C'', [''A''])] \<and>
   graph_edge_set [(''A'', [''C'']), (''C'', [''A''])] = unordered (friend_pairs mixed_store) \<and>
   unordered (friend_pairs mixed_store) = {{''A'', ''C''}} \<and>
   person_graph mixed_store =
     Inr [(''A'', [''C'', ''B'']), (''C'', [''A'', ''B'']), (''B'', [''A'', ''C''])] \<and>
   graph_edge_set [(''A'', [''C'', ''B'']), (''C'', [''A'', ''B'']), (''B'', [''A'', ''C''])] =
     unordered (person_pairs mixed_store) \<and>
   unordered (person_pairs mixed_store) = {{''A'', ''C''}, {''A'', ''B''}, {''B'', ''C''}}"
proof -
  have h1: "no_loop (friend_pairs mixed_store)" by (simp add: mixed_store_def clique_eval_defs)
  have h2: "store_wf mixed_store" by (simp add: mixed_store_def clique_eval_defs)
  have h3: "no_loop (person_pairs mixed_store)" by (simp add: mixed_store_def clique_eval_defs)
  have f: "friend_graph mixed_store = Inr [(''A'', [''C'']), (''C'', [''A''])]"
    by (simp add: mixed_store_def clique_eval_defs)
  have p: "person_graph mixed_store =
     Inr [(''A'', [''C'', ''B'']), (''C'', [''A'', ''B'']), (''B'', [''A'', ''C''])]"
    by (simp add: mixed_store_def clique_eval_defs)
  have u1: "unordered (friend_pairs mixed_store) = {{''A'', ''C''}}"
    by (simp add: mixed_store_def clique_eval_defs insert_commute)
  have u2: "unordered (person_pairs mixed_store) = {{''A'', ''C''}, {''A'', ''B''}, {''B'', ''C''}}"
    by (simp add: mixed_store_def clique_eval_defs insert_commute)
  note inst = derived_graph_edge_set[of mixed_store]
  from inst h1 f have a: "graph_edge_set [(''A'', [''C'']), (''C'', [''A''])] =
      unordered (friend_pairs mixed_store)" by auto
  from inst h2 h3 p have b:
    "graph_edge_set [(''A'', [''C'', ''B'']), (''C'', [''A'', ''B'']), (''B'', [''A'', ''C''])] =
      unordered (person_pairs mixed_store)" by auto
  from h1 h2 h3 f p u1 u2 a b show ?thesis by (intro conjI) simp_all
qed

end
